theory Spec2Isabelle
  imports Main "HOL-Library.Sublist"
begin

section \<open>Filter history and its migration from the application configuration\<close>

text \<open>
  \<^verbatim>\<open>filterlineedit.cpp\<close> keeps the history of filter strings in a settings file of its
  own (\<^verbatim>\<open>FilterHistory\<close>, file \<^verbatim>\<open>-filter.ini\<close>) under the key \<^verbatim>\<open>filter_history\<close>.
  Versions up to 2.5.0 kept it in the application configuration under the same key.
  Both stores are key-value stores; a key that is absent reads as an invalid
  \<^verbatim>\<open>QVariant\<close>, whose \<^verbatim>\<open>toStringList()\<close> is the empty list.
\<close>

definition optionFilterHistory :: string where
  "optionFilterHistory = ''filter_history''"

record stores =
  appConfig :: "string \<rightharpoonup> string list"
  filterSettings :: "string \<rightharpoonup> string list"

text \<open>\<^verbatim>\<open>QVariant::toStringList\<close> of the value read: the invalid variant gives the empty list.\<close>

definition toStringList :: "string list option \<Rightarrow> string list" where
  "toStringList v = (case v of None \<Rightarrow> [] | Some xs \<Rightarrow> xs)"

text \<open>\<^verbatim>\<open>FilterHistory::history\<close> and \<^verbatim>\<open>FilterHistory::setHistory\<close>.\<close>

definition history :: "stores \<Rightarrow> string list" where
  "history s = toStringList (filterSettings s optionFilterHistory)"

definition setHistory :: "string list \<Rightarrow> stores \<Rightarrow> stores" where
  "setHistory h s = s\<lparr>filterSettings := (filterSettings s)(optionFilterHistory \<mapsto> h)\<rparr>"

text \<open>
  Modelled from the spec: \<^verbatim>\<open>AppConfig::option(name)\<close> and \<^verbatim>\<open>AppConfig::removeOption(name)\<close>
  live in \<^verbatim>\<open>common/appconfig.h\<close>, which is not part of the sources at hand. The spec has
  the migration read "one legacy key" that is "present" or "absent" and "delete the
  legacy key": reading gives the stored value, or nothing when the key is absent, and
  removing deletes the key.
\<close>

definition AppConfig_option :: "stores \<Rightarrow> string \<Rightarrow> string list option" where
  "AppConfig_option s name = appConfig s name"

definition AppConfig_removeOption :: "string \<Rightarrow> stores \<Rightarrow> stores" where
  "AppConfig_removeOption name s = s\<lparr>appConfig := (appConfig s)(name := None)\<rparr>"

text \<open>
  \<^verbatim>\<open>QStringList::removeDuplicates\<close>: one pass from the front with the set of strings seen
  so far; a string already seen is dropped, every other string is kept in place.
\<close>

fun removeDuplicates_from :: "'a set \<Rightarrow> 'a list \<Rightarrow> 'a list" where
  "removeDuplicates_from seen [] = []"
| "removeDuplicates_from seen (x # xs) =
     (if x \<in> seen then removeDuplicates_from seen xs
      else x # removeDuplicates_from (insert x seen) xs)"

definition removeDuplicates :: "'a list \<Rightarrow> 'a list" where
  "removeDuplicates xs = removeDuplicates_from {} xs"

text \<open>\<^verbatim>\<open>restoreOldFilterHistory\<close> (compatibility with version 2.5.0 and below).\<close>

definition restoreOldFilterHistory :: "stores \<Rightarrow> stores" where
  "restoreOldFilterHistory s =
     (case AppConfig_option s optionFilterHistory of
        None \<Rightarrow> s
      | Some oldHistory \<Rightarrow>
          AppConfig_removeOption optionFilterHistory
            (if oldHistory \<noteq> []
             then setHistory (removeDuplicates (history s @ oldHistory)) s
             else s))"


section \<open>Regular expressions: the part of the library the filter relies on\<close>

text \<open>
  The filter is a \<^verbatim>\<open>QRegularExpression\<close> (Perl-compatible syntax) with the text it was
  made from. The expression object is its pattern string and its pattern options, of which
  the code sets only the case-insensitive one. Strings are lists of the code points 0 to
  255. Among them the letters with case are A to Z and the code points 192 to 222 other
  than 215, each 32 below its lower-case form.
\<close>

record QRegularExpression =
  pattern :: string
  caseInsensitiveOption :: bool

subsection \<open>Character classes\<close>

text \<open>The class \<^verbatim>\<open>\s\<close> of the expression \<^verbatim>\<open>reWhiteSpace\<close>: HT, LF, VT, FF, CR and space.\<close>

definition is_space :: "char \<Rightarrow> bool" where
  "is_space c = (c \<in> set [CHR 0x09, CHR 0x0A, CHR 0x0B, CHR 0x0C, CHR 0x0D, CHR 0x20])"

definition is_letter :: "char \<Rightarrow> bool" where
  "is_letter c = (let n = (of_char c :: nat) in (97 \<le> n \<and> n \<le> 122) \<or> (65 \<le> n \<and> n \<le> 90))"

definition is_digit :: "char \<Rightarrow> bool" where
  "is_digit c = (let n = (of_char c :: nat) in 48 \<le> n \<and> n \<le> 57)"

definition is_meta :: "char \<Rightarrow> bool" where
  "is_meta c = (c \<in> set (CHR 0x5C # ''^$.[]|()?*+{}''))"

definition lower :: "char \<Rightarrow> char" where
  "lower c =
     (let n = (of_char c :: nat)
      in if (65 \<le> n \<and> n \<le> 90) \<or> (192 \<le> n \<and> n \<le> 222 \<and> n \<noteq> 215)
         then char_of (n + 32) else c)"

subsection \<open>\<^verbatim>\<open>QString::split(reWhiteSpace, SkipEmptyParts)\<close>\<close>

text \<open>
  The pieces between the runs of white space, without the empty ones: the text is read
  once, \<open>cur\<close> is the piece being read.
\<close>

fun split_from :: "string \<Rightarrow> string \<Rightarrow> string list" where
  "split_from cur [] = (if cur = [] then [] else [cur])"
| "split_from cur (c # cs) =
     (if is_space c then (if cur = [] then [] else [cur]) @ split_from [] cs
      else split_from (cur @ [c]) cs)"

definition split_reWhiteSpace :: "string \<Rightarrow> string list" where
  "split_reWhiteSpace t = split_from [] t"

subsection \<open>\<^verbatim>\<open>QRegularExpression::escape\<close>\<close>

text \<open>
  Everything but \<^verbatim>\<open>[a-zA-Z0-9_]\<close> gets a backslash; the NUL character becomes
  backslash and the digit zero.
\<close>

fun escape :: "string \<Rightarrow> string" where
  "escape [] = []"
| "escape (current # str) =
     (if current = CHR 0x00 then CHR 0x5C # CHR ''0'' # escape str
      else if \<not> is_letter current \<and> \<not> is_digit current \<and> current \<noteq> CHR ''_''
      then CHR 0x5C # current # escape str
      else current # escape str)"

subsection \<open>Patterns\<close>

text \<open>
  The syntax modelled is the one the filter itself writes, and what is next to it: a
  sequence of atoms, each optionally followed by the quantifier \<^verbatim>\<open>*\<close> (greedy). An atom
  is a character that is not a metacharacter, a backslash followed by a character that is
  not an ASCII letter or digit and not NUL (that character, literally), backslash-zero
  with up to two octal digits after it (the character with that code; NUL when there is
  no digit), or the dot, which matches every character but the line feed. A backslash at
  the end of the pattern is a syntax error. Everything else is outside the modelled
  syntax: the pattern may or may not be valid, and the library decides (see \<open>pcre\<close>
  below).
\<close>

datatype atom = Lit char | AnyChar

datatype item = One atom | Star atom

datatype token = TAtom atom | TStar | TInvalid | TOutside

datatype 'a parsed = Parsed 'a | Invalid | Outside

definition is_octal :: "char \<Rightarrow> bool" where
  "is_octal c = (let n = (of_char c :: nat) in 48 \<le> n \<and> n \<le> 55)"

definition octal :: "char list \<Rightarrow> char" where
  "octal ds = char_of (foldl (\<lambda>v d. v * 8 + (of_char d - 48)) (0 :: nat) ds)"

fun lexer :: "string \<Rightarrow> token list" where
  "lexer [] = []"
| "lexer (c # cs) =
     (if c = CHR 0x5C then
        (case cs of
           [] \<Rightarrow> [TInvalid]
         | d # ds \<Rightarrow>
             if d = CHR ''0'' then
               (case ds of
                  [] \<Rightarrow> [TAtom (Lit (CHR 0x00))]
                | e # es \<Rightarrow>
                    if is_octal e then
                      (case es of
                         [] \<Rightarrow> [TAtom (Lit (octal [e]))]
                       | f # fs \<Rightarrow>
                           if is_octal f then TAtom (Lit (octal [e, f])) # lexer fs
                           else TAtom (Lit (octal [e])) # lexer es)
                    else TAtom (Lit (CHR 0x00)) # lexer ds)
             else if is_letter d \<or> is_digit d \<or> d = CHR 0x00 then [TOutside]
             else TAtom (Lit d) # lexer ds)
      else if c = CHR ''*'' then TStar # lexer cs
      else if c = CHR ''.'' then TAtom AnyChar # lexer cs
      else if is_meta c \<or> c = CHR 0x00 then [TOutside]
      else TAtom (Lit c) # lexer cs)"

fun add_item :: "item \<Rightarrow> item list parsed \<Rightarrow> item list parsed" where
  "add_item i (Parsed is) = Parsed (i # is)"
| "add_item i Invalid = Invalid"
| "add_item i Outside = Outside"

fun build :: "token list \<Rightarrow> item list parsed" where
  "build [] = Parsed []"
| "build (TAtom a # TStar # ts) = add_item (Star a) (build ts)"
| "build (TAtom a # ts) = add_item (One a) (build ts)"
| "build (TStar # ts) = Outside"
| "build (TInvalid # ts) = Invalid"
| "build (TOutside # ts) = Outside"

definition parse_items :: "string \<Rightarrow> item list parsed" where
  "parse_items p = build (lexer p)"

text \<open>
  The anchored form \<^verbatim>\<open>\A(?:p)\z\<close> of a pattern \<open>p\<close> of the modelled syntax: the match starts
  at the start of the subject and ends at its end. A compiled pattern is the flag
  "anchored" and the items.
\<close>

definition unanchor :: "string \<Rightarrow> string option" where
  "unanchor p =
     (if 8 \<le> length p \<and> take 5 p = CHR 0x5C # ''A(?:''
         \<and> drop (length p - 3) p = [CHR '')'', CHR 0x5C, CHR ''z'']
      then Some (take (length p - 8) (drop 5 p)) else None)"

definition parse_pattern :: "string \<Rightarrow> (bool \<times> item list) parsed" where
  "parse_pattern p =
     (case unanchor p of
        Some inner \<Rightarrow>
          (case parse_items inner of
             Parsed is \<Rightarrow> Parsed (True, is) | Invalid \<Rightarrow> Invalid | Outside \<Rightarrow> Outside)
      | None \<Rightarrow>
          (case parse_items p of
             Parsed is \<Rightarrow> Parsed (False, is) | Invalid \<Rightarrow> Invalid | Outside \<Rightarrow> Outside))"

subsection \<open>Matching\<close>

definition atom_matches :: "bool \<Rightarrow> atom \<Rightarrow> char \<Rightarrow> bool" where
  "atom_matches ci a c =
     (case a of
        AnyChar \<Rightarrow> c \<noteq> CHR 0x0A
      | Lit l \<Rightarrow> if ci then lower l = lower c else l = c)"

text \<open>
  \<open>match_here ci to_end is s\<close>: the items matched at the start of \<open>s\<close>, with backtracking in
  the library's order (a star takes as many characters as it can and gives them back one
  by one). The result is the length of the match; with \<open>to_end\<close> the match has to end at
  the end of \<open>s\<close>.
\<close>

fun match_here :: "bool \<Rightarrow> bool \<Rightarrow> item list \<Rightarrow> string \<Rightarrow> nat option" where
  "match_here ci to_end [] s = (if to_end \<and> s \<noteq> [] then None else Some 0)"
| "match_here ci to_end (One a # is) [] = None"
| "match_here ci to_end (One a # is) (c # cs) =
     (if atom_matches ci a c then map_option Suc (match_here ci to_end is cs) else None)"
| "match_here ci to_end (Star a # is) [] = match_here ci to_end is []"
| "match_here ci to_end (Star a # is) (c # cs) =
     (if atom_matches ci a c
      then (case match_here ci to_end (Star a # is) cs of
              Some k \<Rightarrow> Some (Suc k)
            | None \<Rightarrow> match_here ci to_end is (c # cs))
      else match_here ci to_end is (c # cs))"

text \<open>The first match that starts at position \<open>pos\<close> or later; \<open>s\<close> is the text from \<open>pos\<close> on.\<close>

fun search_from :: "bool \<Rightarrow> item list \<Rightarrow> nat \<Rightarrow> string \<Rightarrow> (nat \<times> nat) option" where
  "search_from ci is pos [] =
     (case match_here ci False is [] of Some k \<Rightarrow> Some (pos, pos + k) | None \<Rightarrow> None)"
| "search_from ci is pos (c # cs) =
     (case match_here ci False is (c # cs) of
        Some k \<Rightarrow> Some (pos, pos + k)
      | None \<Rightarrow> search_from ci is (Suc pos) cs)"

text \<open>
  A matcher gives, for a subject and an offset into it, the first match at or after the
  offset as the pair of its start and its end, or nothing.
\<close>

type_synonym matcher = "string \<Rightarrow> nat \<Rightarrow> (nat \<times> nat) option"

definition items_matcher :: "bool \<Rightarrow> bool \<times> item list \<Rightarrow> matcher" where
  "items_matcher ci rx text offset =
     (if length text < offset then None
      else if fst rx then
        (if offset = 0 then map_option (\<lambda>k. (0, k)) (match_here ci True (snd rx) text) else None)
      else search_from ci (snd rx) offset (drop offset text))"

text \<open>
  What the code does not fix about the library is a parameter, \<open>pcre\<close>:

    \<^item> \<open>outside_syntax\<close>: on a pattern outside the modelled syntax, with the
      case-insensitive option, nothing when the pattern does not compile, and the matcher
      otherwise;
    \<^item> \<open>too_large\<close>: the patterns of the modelled syntax, with the case-insensitive
      option, that the library refuses to compile for their size (the compiled form of a
      pattern has a largest size);
    \<^item> \<open>gives_up\<close>: the searches, of a pattern with its option in a subject from an
      offset, that the library abandons at its limit on the work of one match; such a
      search reports no match.

  The empty pattern always compiles.
\<close>

record pcre =
  outside_syntax :: "string \<Rightarrow> bool \<Rightarrow> matcher option"
  too_large :: "string \<Rightarrow> bool \<Rightarrow> bool"
  gives_up :: "string \<Rightarrow> bool \<Rightarrow> string \<Rightarrow> nat \<Rightarrow> bool"

definition limited :: "pcre \<Rightarrow> QRegularExpression \<Rightarrow> matcher \<Rightarrow> matcher" where
  "limited pcre re m text offset =
     (if gives_up pcre (pattern re) (caseInsensitiveOption re) text offset then None
      else m text offset)"

definition compile :: "pcre \<Rightarrow> QRegularExpression \<Rightarrow> matcher option" where
  "compile pcre re =
     (case parse_pattern (pattern re) of
        Parsed rx \<Rightarrow>
          if pattern re \<noteq> [] \<and> too_large pcre (pattern re) (caseInsensitiveOption re) then None
          else Some (limited pcre re (items_matcher (caseInsensitiveOption re) rx))
      | Invalid \<Rightarrow> None
      | Outside \<Rightarrow> outside_syntax pcre (pattern re) (caseInsensitiveOption re))"

text \<open>\<^verbatim>\<open>QRegularExpression::isValid\<close> and \<^verbatim>\<open>QString::contains(re)\<close>.\<close>

definition isValid :: "pcre \<Rightarrow> QRegularExpression \<Rightarrow> bool" where
  "isValid pcre re = (compile pcre re \<noteq> None)"

definition contains :: "pcre \<Rightarrow> string \<Rightarrow> QRegularExpression \<Rightarrow> bool" where
  "contains pcre text re =
     (case compile pcre re of None \<Rightarrow> False | Some m \<Rightarrow> m text 0 \<noteq> None)"


section \<open>The item filter\<close>

record FilterOptions =
  useRegex :: bool
  caseInsensitive :: bool

record ItemFilterRegExp =
  m_re :: QRegularExpression
  m_searchString :: string

text \<open>
  \<^verbatim>\<open>FilterLineEdit::filter\<close>: \<open>text\<close> is the text of the line edit, the two options are the
  states of the menu actions. Without the regular-expression option the pattern is built
  piece by piece in the loop over the split text.
\<close>

definition append_piece :: "string \<Rightarrow> string \<Rightarrow> string" where
  "append_piece pat str = (if pat \<noteq> [] then pat @ ''.*'' else pat) @ escape str"

definition FilterLineEdit_filter :: "string \<Rightarrow> FilterOptions \<Rightarrow> ItemFilterRegExp" where
  "FilterLineEdit_filter text opts =
     (let pat = (if useRegex opts then text
                 else foldl append_piece [] (split_reWhiteSpace text))
      in \<lparr>m_re = \<lparr>pattern = pat, caseInsensitiveOption = caseInsensitive opts\<rparr>,
          m_searchString = text\<rparr>)"

definition searchString :: "ItemFilterRegExp \<Rightarrow> string" where
  "searchString f = m_searchString f"

definition matchesAll :: "ItemFilterRegExp \<Rightarrow> bool" where
  "matchesAll f = (pattern (m_re f) = [])"


definition matches :: "pcre \<Rightarrow> ItemFilterRegExp \<Rightarrow> string \<Rightarrow> bool" where
  "matches pcre f text = contains pcre text (m_re f)"

text \<open>
  \<^verbatim>\<open>ItemFilterRegExp::matches(const QModelIndex &)\<close>: \<open>data\<close> is the map of the item's
  formats, from the format name to the bytes. The function \<^verbatim>\<open>anchoredRegExp\<close> that it calls
  is declared in \<^verbatim>\<open>common/regexp.h\<close>, which is not part of the sources at hand: it is a
  parameter, a function from the pattern string to an expression.
\<close>

definition matches_index ::
  "pcre \<Rightarrow> (string \<Rightarrow> QRegularExpression) \<Rightarrow> ItemFilterRegExp \<Rightarrow> (string \<times> 'v) list \<Rightarrow> bool" where
  "matches_index pcre anchoredRegExp f data =
     (if count_list (pattern (m_re f)) (CHR ''/'') \<noteq> 1 then False
      else (let re2 = anchoredRegExp (pattern (m_re f))
            in list_ex (\<lambda>key. contains pcre key re2) (map fst data)))"



section \<open>The search timer of the line edit\<close>

text \<open>
  The line edit owns a single-shot timer with an interval of 200 time units, connected to
  the signal \<^verbatim>\<open>filterChanged\<close>. Time is a natural number. The state of the widget, as far as
  the timer goes: whether it has the focus, the time at which the timer is due when it is
  active, and the times at which \<^verbatim>\<open>filterChanged\<close> was emitted so far.
\<close>

record FilterLineEdit =
  hasFocus :: bool
  m_timerSearch :: "nat option"
  filterChanged :: "nat list"

definition interval :: nat where
  "interval = 200"

text \<open>\<^verbatim>\<open>QTimer::start\<close> (a restart when the timer is active), \<^verbatim>\<open>stop\<close> and \<^verbatim>\<open>isActive\<close>.\<close>

definition timer_start :: "nat \<Rightarrow> FilterLineEdit \<Rightarrow> FilterLineEdit" where
  "timer_start now w = w\<lparr>m_timerSearch := Some (now + interval)\<rparr>"

definition timer_stop :: "FilterLineEdit \<Rightarrow> FilterLineEdit" where
  "timer_stop w = w\<lparr>m_timerSearch := None\<rparr>"

definition isActive :: "FilterLineEdit \<Rightarrow> bool" where
  "isActive w = (m_timerSearch w \<noteq> None)"

definition emit_filterChanged :: "nat \<Rightarrow> FilterLineEdit \<Rightarrow> FilterLineEdit" where
  "emit_filterChanged now w = w\<lparr>filterChanged := filterChanged w @ [now]\<rparr>"

text \<open>\<^verbatim>\<open>FilterLineEdit::onTextChanged\<close>, at the time \<open>now\<close>.\<close>

definition onTextChanged :: "nat \<Rightarrow> FilterLineEdit \<Rightarrow> FilterLineEdit" where
  "onTextChanged now w = (if hasFocus w then timer_start now w else emit_filterChanged now w)"

text \<open>
  \<^verbatim>\<open>FilterLineEdit::focusOutEvent\<close>: when the event is delivered the widget has lost the
  focus already, so \<^verbatim>\<open>hasFocus()\<close> is false in the call of \<^verbatim>\<open>onTextChanged\<close>.
  \<^verbatim>\<open>focusInEvent\<close> does nothing beyond the base class.
\<close>

definition focusOutEvent :: "nat \<Rightarrow> FilterLineEdit \<Rightarrow> FilterLineEdit" where
  "focusOutEvent now w =
     (let w = w\<lparr>hasFocus := False\<rparr>
      in if isActive w then onTextChanged now (timer_stop w) else w)"

definition focusInEvent :: "nat \<Rightarrow> FilterLineEdit \<Rightarrow> FilterLineEdit" where
  "focusInEvent now w = w\<lparr>hasFocus := True\<rparr>"

text \<open>
  The event loop up to the time \<open>t\<close>: a timer that is due fires at its time, which emits
  the signal connected to \<^verbatim>\<open>timeout\<close> and, the timer being single-shot, leaves it inactive.
\<close>

definition advance_to :: "nat \<Rightarrow> FilterLineEdit \<Rightarrow> FilterLineEdit" where
  "advance_to t w =
     (case m_timerSearch w of
        None \<Rightarrow> w
      | Some due \<Rightarrow> if due \<le> t then emit_filterChanged due (timer_stop w) else w)"

datatype event = TextChanged | FocusIn | FocusOut

definition deliver :: "nat \<Rightarrow> event \<Rightarrow> FilterLineEdit \<Rightarrow> FilterLineEdit" where
  "deliver t e w =
     (let w = advance_to t w
      in case e of
           TextChanged \<Rightarrow> onTextChanged t w
         | FocusIn \<Rightarrow> focusInEvent t w
         | FocusOut \<Rightarrow> focusOutEvent t w)"

fun run :: "(nat \<times> event) list \<Rightarrow> FilterLineEdit \<Rightarrow> FilterLineEdit" where
  "run [] w = w"
| "run ((t, e) # es) w = run es (deliver t e w)"

text \<open>Edits in quick succession: each one comes less than an interval after the one before.\<close>

fun rapid :: "nat \<Rightarrow> nat list \<Rightarrow> bool" where
  "rapid t0 [] = True"
| "rapid t0 (t # ts) = (t0 \<le> t \<and> t < t0 + interval \<and> rapid t ts)"


section \<open>Highlighting and searching in a text edit\<close>

text \<open>
  A text cursor is null or has an anchor and a position in the document; the selection is
  what lies between the two. The document is its plain text, and the positions go from 0
  to the length of the text. The position of the null cursor reads as -1.
\<close>

type_synonym QTextCursor = "(nat \<times> nat) option"

definition position :: "QTextCursor \<Rightarrow> int" where
  "position cur = (case cur of None \<Rightarrow> - 1 | Some (a, p) \<Rightarrow> int p)"

definition hasSelection :: "QTextCursor \<Rightarrow> bool" where
  "hasSelection cur = (case cur of None \<Rightarrow> False | Some (a, p) \<Rightarrow> a \<noteq> p)"

definition selectionStart :: "QTextCursor \<Rightarrow> nat" where
  "selectionStart cur = (case cur of None \<Rightarrow> 0 | Some (a, p) \<Rightarrow> min a p)"

definition selectionEnd :: "QTextCursor \<Rightarrow> nat" where
  "selectionEnd cur = (case cur of None \<Rightarrow> 0 | Some (a, p) \<Rightarrow> max a p)"

text \<open>
  \<^verbatim>\<open>QTextCursor::movePosition\<close> with the default mode, which moves the anchor with the
  position, for the three operations the filter uses. At the end of the document the next
  character is not there and the position stays. The null cursor does not move.
\<close>

datatype MoveOperation = Start | End | NextCharacter

definition movePosition :: "string \<Rightarrow> MoveOperation \<Rightarrow> QTextCursor \<Rightarrow> QTextCursor" where
  "movePosition doc op cur =
     (case cur of
        None \<Rightarrow> None
      | Some (a, p) \<Rightarrow>
          (case op of
             Start \<Rightarrow> Some (0, 0)
           | End \<Rightarrow> Some (length doc, length doc)
           | NextCharacter \<Rightarrow> if p < length doc then Some (Suc p, Suc p) else Some (p, p)))"

text \<open>
  \<^verbatim>\<open>QTextDocument::find(expr, cursor, flags)\<close> is the library's; it is a parameter of the two
  operations: for the document, the expression, the cursor to start from (the null cursor
  for the start of the document) and the flag for the backward search it gives the cursor
  that selects the match found, the anchor at its start and the position at its end, or
  the null cursor.
\<close>

type_synonym finder = "string \<Rightarrow> QRegularExpression \<Rightarrow> QTextCursor \<Rightarrow> bool \<Rightarrow> QTextCursor"

record QTextEdit =
  document :: string
  textCursor :: QTextCursor
  extraSelections :: "(nat \<times> nat) list"

text \<open>
  The loop of \<^verbatim>\<open>ItemFilterRegExp::highlight\<close>, with the variables \<open>cur\<close>, \<open>a\<close> and
  \<open>selections\<close>; the result is the list of selections when the loop ends.
\<close>

partial_function (option) highlight_loop ::
  "finder \<Rightarrow> string \<Rightarrow> QRegularExpression \<Rightarrow> QTextCursor \<Rightarrow> int \<Rightarrow> (nat \<times> nat) list
     \<Rightarrow> (nat \<times> nat) list option" where
  "highlight_loop find_in doc re cur a selections =
     (case cur of
        None \<Rightarrow> Some selections
      | Some c \<Rightarrow>
          (let selections = (if hasSelection cur then selections @ [c] else selections);
               cur = (if hasSelection cur then cur else movePosition doc NextCharacter cur);
               cur = find_in doc re cur False;
               b = position cur
           in if a = b then
                (let cur = movePosition doc NextCharacter cur;
                     cur = find_in doc re cur False;
                     b = position cur
                 in if a = b then Some selections
                    else highlight_loop find_in doc re cur b selections)
              else highlight_loop find_in doc re cur b selections))"

declare highlight_loop.simps [code]

text \<open>
  \<^verbatim>\<open>ItemFilterRegExp::highlight\<close>: the new state of the text edit, or nothing when the loop
  does not end. The character format of the selections plays no role and is left out.
\<close>

definition highlight :: "pcre \<Rightarrow> finder \<Rightarrow> ItemFilterRegExp \<Rightarrow> QTextEdit \<Rightarrow> QTextEdit option" where
  "highlight pcre find_in f edit =
     (if isValid pcre (m_re f) \<and> pattern (m_re f) \<noteq> [] then
        (let cur = find_in (document edit) (m_re f) None False;
             a = position cur
         in map_option (\<lambda>selections. edit\<lparr>extraSelections := selections\<rparr>)
              (highlight_loop find_in (document edit) (m_re f) cur a []))
      else Some (edit\<lparr>extraSelections := []\<rparr>))"


text \<open>
  A finder for a document of one paragraph, as the library's \<^verbatim>\<open>find\<close> works when the flag
  for the case-sensitive search is not given, which is how the filter calls it. The case
  option of the expression is replaced by the case-insensitive one, and the no-break
  spaces of the paragraph are read as spaces. Forward, the result is the first match at or
  after the end of the cursor's selection. Backward, the matches of the paragraph are
  taken one after the other from its start, each search going on from the end of the
  match before (one character further after an empty match), and the result is the last
  of them that starts before the start of the selection.
\<close>

function successive :: "matcher \<Rightarrow> string \<Rightarrow> nat \<Rightarrow> (nat \<times> nat) list" where
  "successive m doc offset =
     (if length doc < offset then []
      else (case m doc offset of
              None \<Rightarrow> []
            | Some (s, e) \<Rightarrow>
                (s, e) # successive m doc (max (Suc offset) (if s < e then e else Suc e))))"
  by pat_completeness auto

termination
  by (relation "measure (\<lambda>(m, doc, offset). Suc (length doc) - offset)") auto

declare successive.simps [simp del]

definition last_before :: "(nat \<times> nat) list \<Rightarrow> nat \<Rightarrow> (nat \<times> nat) option" where
  "last_before xs n =
     (case takeWhile (\<lambda>x. fst x < n) xs of [] \<Rightarrow> None | y # ys \<Rightarrow> Some (last (y # ys)))"

definition block_text :: "string \<Rightarrow> string" where
  "block_text doc = map (\<lambda>c. if c = CHR 0xA0 then CHR '' '' else c) doc"

definition paragraph_find :: "pcre \<Rightarrow> finder" where
  "paragraph_find pcre doc re cur backwards =
     (case compile pcre (re\<lparr>caseInsensitiveOption := True\<rparr>) of
        None \<Rightarrow> None
      | Some m \<Rightarrow>
          if backwards
          then last_before (successive m (block_text doc) 0) (selectionStart cur)
          else m (block_text doc) (selectionEnd cur))"

text \<open>
  What the loop needs of the finder: a match found forward lies at or after the end of
  the selection of the cursor given, and inside the document.
\<close>

definition finds_ahead :: "finder \<Rightarrow> string \<Rightarrow> QRegularExpression \<Rightarrow> bool" where
  "finds_ahead find_in doc re =
     (\<forall>cur a p. find_in doc re cur False = Some (a, p) \<longrightarrow>
        selectionEnd cur \<le> a \<and> a \<le> p \<and> p \<le> length doc)"


section \<open>Notions of the specification\<close>

text \<open>The text without the white space at its two ends.\<close>

definition trimmed :: "string \<Rightarrow> string" where
  "trimmed t = rev (dropWhile is_space (rev (dropWhile is_space t)))"

text \<open>
  The pattern written for a list of pieces: the escaped pieces with \<^verbatim>\<open>.*\<close> between them.
\<close>

fun pieces_pattern :: "string list \<Rightarrow> string" where
  "pieces_pattern [] = []"
| "pieces_pattern [t] = escape t"
| "pieces_pattern (t # ts) = escape t @ ''.*'' @ pieces_pattern ts"

text \<open>
  The tokens occur in the text in token order, each after the end of the one before:
  the first occurrence of the first token is taken, and the rest of the text is searched
  for the other tokens.
\<close>

fun after_first :: "string \<Rightarrow> string \<Rightarrow> string option" where
  "after_first tok [] = (if tok = [] then Some [] else None)"
| "after_first tok (c # cs) =
     (if prefix tok (c # cs) then Some (drop (length tok) (c # cs)) else after_first tok cs)"

fun occur_in_order :: "string list \<Rightarrow> string \<Rightarrow> bool" where
  "occur_in_order [] text = True"
| "occur_in_order (tok # toks) text =
     (case after_first tok text of None \<Rightarrow> False | Some rest \<Rightarrow> occur_in_order toks rest)"



text \<open>The string as a whole is matched by the items.\<close>

fun full_match :: "bool \<Rightarrow> item list \<Rightarrow> string \<Rightarrow> bool" where
  "full_match ci [] s = (s = [])"
| "full_match ci (One a # is) s = (\<exists>c cs. s = c # cs \<and> atom_matches ci a c \<and> full_match ci is cs)"
| "full_match ci (Star a # is) s =
     (\<exists>u v. s = u @ v \<and> (\<forall>c \<in> set u. atom_matches ci a c) \<and> full_match ci is v)"







text \<open>
  The library taken to reject every pattern outside the modelled syntax, and to have no
  limit of size or of work.
\<close>

definition no_pcre :: pcre where
  "no_pcre =
     \<lparr>outside_syntax = (\<lambda>p ci. None), too_large = (\<lambda>p ci. False),
      gives_up = (\<lambda>p ci text offset. False)\<rparr>"


text \<open>
  The anchored form of a pattern, as \<^verbatim>\<open>QRegularExpression::anchoredPattern\<close> writes it, and
  the expression of that form with no pattern option: one function that
  \<^verbatim>\<open>anchoredRegExp\<close> may be.
\<close>

definition anchoredPattern :: "string \<Rightarrow> string" where
  "anchoredPattern expression =
     (CHR 0x5C # ''A(?:'') @ expression @ [CHR '')'', CHR 0x5C, CHR ''z'']"

definition anchored_expression :: "string \<Rightarrow> QRegularExpression" where
  "anchored_expression p = \<lparr>pattern = anchoredPattern p, caseInsensitiveOption = False\<rparr>"


section \<open>Properties of the history migration\<close>

lemma removeDuplicates_from_set:
  "set (removeDuplicates_from seen xs) = set xs - seen"
  by (induction xs arbitrary: seen) auto

lemma removeDuplicates_from_distinct:
  "distinct (removeDuplicates_from seen xs)"
  by (induction xs arbitrary: seen) (auto simp: removeDuplicates_from_set)

lemma removeDuplicates_from_subseq:
  "subseq (removeDuplicates_from seen xs) xs"
  by (induction xs arbitrary: seen) auto

text \<open>
  First occurrence wins: the element kept for a value is the one at its first position,
  so the result is the list of the first occurrences in their order. In terms of the
  library's \<open>remdups\<close>, which keeps last occurrences, it is \<open>remdups\<close> read from the back.
\<close>

lemma removeDuplicates_from_append:
  "removeDuplicates_from seen (xs @ ys)
     = removeDuplicates_from seen xs @ removeDuplicates_from (seen \<union> set xs) ys"
  by (induction xs arbitrary: seen) (auto simp: insert_absorb)

lemma removeDuplicates_from_snoc:
  "removeDuplicates_from seen (xs @ [x])
     = removeDuplicates_from seen xs @ (if x \<in> seen \<union> set xs then [] else [x])"
  by (simp add: removeDuplicates_from_append)

lemma removeDuplicates_first_occurrence:
  "removeDuplicates xs = rev (remdups (rev xs))"
proof (induction xs rule: rev_induct)
  case Nil
  show ?case by (simp add: removeDuplicates_def)
next
  case (snoc x xs)
  then show ?case
    by (simp add: removeDuplicates_def removeDuplicates_from_snoc)
qed

text \<open>
  Claim C8. When the legacy key is present with a non-empty value, the migration writes
  the deduplicated merge (current entries first, then the legacy ones; the first
  occurrence of a string stays, in place) and deletes the legacy key; when the value is
  empty it only deletes the legacy key; when the key is absent it changes nothing; in
  every case the legacy key is absent afterwards and a second run changes nothing.
\<close>

theorem restoreOldFilterHistory_migrates:
  "(appConfig s optionFilterHistory = Some old \<and> old \<noteq> [] \<longrightarrow>
      history (restoreOldFilterHistory s) = removeDuplicates (history s @ old)
      \<and> distinct (history (restoreOldFilterHistory s))
      \<and> set (history (restoreOldFilterHistory s)) = set (history s) \<union> set old
      \<and> subseq (history (restoreOldFilterHistory s)) (history s @ old)
      \<and> history (restoreOldFilterHistory s) = rev (remdups (rev (history s @ old)))
      \<and> appConfig (restoreOldFilterHistory s) = (appConfig s)(optionFilterHistory := None))
   \<and> (appConfig s optionFilterHistory = Some [] \<longrightarrow>
      restoreOldFilterHistory s = s\<lparr>appConfig := (appConfig s)(optionFilterHistory := None)\<rparr>)
   \<and> (appConfig s optionFilterHistory = None \<longrightarrow> restoreOldFilterHistory s = s)
   \<and> appConfig (restoreOldFilterHistory s) optionFilterHistory = None
   \<and> restoreOldFilterHistory (restoreOldFilterHistory s) = restoreOldFilterHistory s"
proof -
  have present: "history (restoreOldFilterHistory s) = removeDuplicates (history s @ old)
      \<and> appConfig (restoreOldFilterHistory s) = (appConfig s)(optionFilterHistory := None)"
    if "appConfig s optionFilterHistory = Some old" "old \<noteq> []" for old
    using that
    by (simp add: restoreOldFilterHistory_def AppConfig_option_def AppConfig_removeOption_def
        setHistory_def history_def toStringList_def)
  have shape: "distinct (removeDuplicates ys) \<and> set (removeDuplicates ys) = set ys
      \<and> subseq (removeDuplicates ys) ys" for ys :: "string list"
    by (simp add: removeDuplicates_def removeDuplicates_from_distinct
        removeDuplicates_from_set removeDuplicates_from_subseq)
  have absent: "appConfig (restoreOldFilterHistory s) optionFilterHistory = None"
    by (simp add: restoreOldFilterHistory_def AppConfig_option_def AppConfig_removeOption_def
        setHistory_def split: option.splits)
  have again: "restoreOldFilterHistory t = t" if "appConfig t optionFilterHistory = None" for t
    using that by (simp add: restoreOldFilterHistory_def AppConfig_option_def)
  have empty: "restoreOldFilterHistory s = s\<lparr>appConfig := (appConfig s)(optionFilterHistory := None)\<rparr>"
    if "appConfig s optionFilterHistory = Some []"
    using that
    by (simp add: restoreOldFilterHistory_def AppConfig_option_def AppConfig_removeOption_def)
  have first: "removeDuplicates ys = rev (remdups (rev ys))" for ys :: "string list"
    by (rule removeDuplicates_first_occurrence)
  have merged: "history (restoreOldFilterHistory s) = removeDuplicates (history s @ old)
      \<and> distinct (history (restoreOldFilterHistory s))
      \<and> set (history (restoreOldFilterHistory s)) = set (history s) \<union> set old
      \<and> subseq (history (restoreOldFilterHistory s)) (history s @ old)
      \<and> history (restoreOldFilterHistory s) = rev (remdups (rev (history s @ old)))
      \<and> appConfig (restoreOldFilterHistory s) = (appConfig s)(optionFilterHistory := None)"
    if h: "appConfig s optionFilterHistory = Some old \<and> old \<noteq> []"
  proof -
    have eq: "history (restoreOldFilterHistory s) = removeDuplicates (history s @ old)"
      and del: "appConfig (restoreOldFilterHistory s) = (appConfig s)(optionFilterHistory := None)"
      using present h by blast+
    show ?thesis
      unfolding eq using shape[of "history s @ old"] first[of "history s @ old"] del
      by (simp del: rev_append)
  qed
  show ?thesis
    using merged empty again absent again[OF absent] by blast
qed

theorem restoreOldFilterHistory_migrates_witness:
  "history (restoreOldFilterHistory
      \<lparr>appConfig = [optionFilterHistory \<mapsto> [''x'', ''y'']],
       filterSettings = [optionFilterHistory \<mapsto> [''y'', ''z'']]\<rparr>) = [''y'', ''z'', ''x'']
   \<and> appConfig (restoreOldFilterHistory
      \<lparr>appConfig = [optionFilterHistory \<mapsto> [''x'', ''y'']],
       filterSettings = [optionFilterHistory \<mapsto> [''y'', ''z'']]\<rparr>) optionFilterHistory = None
   \<and> restoreOldFilterHistory
      \<lparr>appConfig = [optionFilterHistory \<mapsto> []],
       filterSettings = [optionFilterHistory \<mapsto> [''y'', ''z'']]\<rparr>
     = \<lparr>appConfig = Map.empty, filterSettings = [optionFilterHistory \<mapsto> [''y'', ''z'']]\<rparr>
   \<and> restoreOldFilterHistory
      \<lparr>appConfig = Map.empty, filterSettings = [optionFilterHistory \<mapsto> [''y'', ''z'']]\<rparr>
     = \<lparr>appConfig = Map.empty, filterSettings = [optionFilterHistory \<mapsto> [''y'', ''z'']]\<rparr>"
  using restoreOldFilterHistory_migrates
    [of "\<lparr>appConfig = [optionFilterHistory \<mapsto> [''x'', ''y'']],
          filterSettings = [optionFilterHistory \<mapsto> [''y'', ''z'']]\<rparr>" "[''x'', ''y'']"]
    restoreOldFilterHistory_migrates
    [of "\<lparr>appConfig = [optionFilterHistory \<mapsto> []],
          filterSettings = [optionFilterHistory \<mapsto> [''y'', ''z'']]\<rparr>" "[]"]
    restoreOldFilterHistory_migrates
    [of "\<lparr>appConfig = Map.empty,
          filterSettings = [optionFilterHistory \<mapsto> [''y'', ''z'']]\<rparr>" "[]"]
  by (simp add: history_def toStringList_def removeDuplicates_def)

section \<open>The pattern written by the filter\<close>

lemma split_from_nonempty: "tok \<in> set (split_from cur t) \<Longrightarrow> tok \<noteq> []"
  by (induction t arbitrary: cur) (auto split: if_splits)

lemma split_from_Nil: "split_from cur t = [] \<longleftrightarrow> cur = [] \<and> (\<forall>c \<in> set t. is_space c)"
  by (induction t arbitrary: cur) auto


lemma escape_Nil: "escape s = [] \<longleftrightarrow> s = []"
  by (cases s) auto

lemma append_piece_nonempty: "tok \<noteq> [] \<Longrightarrow> append_piece pat tok \<noteq> []"
  by (simp add: append_piece_def escape_Nil)

lemma foldl_append_piece_nonempty: "pat \<noteq> [] \<Longrightarrow> foldl append_piece pat toks \<noteq> []"
  by (induction toks arbitrary: pat) (auto simp: append_piece_def)

lemma foldl_append_piece:
  "\<forall>tok \<in> set toks. tok \<noteq> [] \<Longrightarrow>
   foldl append_piece pat toks =
     (if toks = [] then pat else if pat = [] then pieces_pattern toks
      else pat @ ''.*'' @ pieces_pattern toks)"
proof (induction toks arbitrary: pat)
  case Nil
  show ?case by simp
next
  case (Cons tok toks)
  have ne: "append_piece pat tok \<noteq> []"
    using Cons.prems by (simp add: append_piece_nonempty)
  show ?case
  proof (cases toks)
    case Nil
    then show ?thesis by (simp add: append_piece_def)
  next
    case (Cons tok' toks')
    with Cons.IH[of "append_piece pat tok"] Cons.prems ne show ?thesis
      by (simp add: append_piece_def)
  qed
qed

lemma filter_pattern_pieces:
  "pattern (m_re (FilterLineEdit_filter t \<lparr>useRegex = False, caseInsensitive = ci\<rparr>))
     = pieces_pattern (split_reWhiteSpace t)"
  using foldl_append_piece[of "split_reWhiteSpace t" "[]"] split_from_nonempty[of _ "[]" t]
  by (auto simp: FilterLineEdit_filter_def split_reWhiteSpace_def)

lemma pieces_pattern_Nil: "\<forall>tok \<in> set toks. tok \<noteq> [] \<Longrightarrow> pieces_pattern toks = [] \<longleftrightarrow> toks = []"
  by (induction toks rule: pieces_pattern.induct) (auto simp: escape_Nil)

lemma dropWhile_Nil_iff: "dropWhile P xs = [] \<longleftrightarrow> (\<forall>x \<in> set xs. P x)"
  by (induction xs) auto

lemma trimmed_Nil: "trimmed t = [] \<longleftrightarrow> (\<forall>c \<in> set t. is_space c)"
proof
  assume "trimmed t = []"
  then have "dropWhile is_space (rev (dropWhile is_space t)) = []"
    by (simp only: trimmed_def rev_is_Nil_conv)
  then have "\<forall>x \<in> set (rev (dropWhile is_space t)). is_space x"
    by (simp only: dropWhile_Nil_iff)
  then have all: "\<forall>x \<in> set (dropWhile is_space t). is_space x"
    by (simp only: set_rev)
  have "dropWhile is_space t = []"
  proof (rule ccontr)
    assume ne: "dropWhile is_space t \<noteq> []"
    then have "\<not> is_space (hd (dropWhile is_space t))" by (rule hd_dropWhile)
    moreover have "hd (dropWhile is_space t) \<in> set (dropWhile is_space t)" using ne by simp
    ultimately show False using all by blast
  qed
  then show "\<forall>c \<in> set t. is_space c" by (simp only: dropWhile_Nil_iff)
next
  assume "\<forall>c \<in> set t. is_space c"
  then have "dropWhile is_space t = []" by (simp only: dropWhile_Nil_iff)
  then show "trimmed t = []" unfolding trimmed_def by (simp del: dropWhile_eq_Nil_conv)
qed

text \<open>
  Claim C3. The filter matches everything exactly when its pattern string is empty: without
  the regular-expression option that is when the text is empty once the white space at its
  ends is taken away (the white space of the split), with the option it is when the text
  itself is empty.
\<close>

theorem matchesAll_iff:
  "matchesAll (FilterLineEdit_filter t \<lparr>useRegex = False, caseInsensitive = ci\<rparr>) = (trimmed t = [])
   \<and> matchesAll (FilterLineEdit_filter t \<lparr>useRegex = True, caseInsensitive = ci\<rparr>) = (t = [])
   \<and> matchesAll f = (pattern (m_re f) = [])"
proof -
  have ne: "\<forall>tok \<in> set (split_reWhiteSpace t). tok \<noteq> []"
    using split_from_nonempty[of _ "[]" t] by (auto simp: split_reWhiteSpace_def)
  have "pieces_pattern (split_reWhiteSpace t) = [] \<longleftrightarrow> split_reWhiteSpace t = []"
    using ne by (rule pieces_pattern_Nil)
  also have "\<dots> \<longleftrightarrow> trimmed t = []"
    by (simp only: split_reWhiteSpace_def split_from_Nil trimmed_Nil simp_thms)
  finally have "pieces_pattern (split_reWhiteSpace t) = [] \<longleftrightarrow> trimmed t = []" .
  then show ?thesis
    unfolding matchesAll_def filter_pattern_pieces
    by (simp add: FilterLineEdit_filter_def)
qed

section \<open>The pattern written by the filter is in the modelled syntax\<close>























lemma filter_pattern:
  "pattern (m_re (FilterLineEdit_filter t opts))
     = (if useRegex opts then t else pieces_pattern (split_reWhiteSpace t))"
  using foldl_append_piece[of "split_reWhiteSpace t" "[]"] split_from_nonempty[of _ "[]" t]
  by (auto simp: FilterLineEdit_filter_def split_reWhiteSpace_def)

lemma filter_option:
  "caseInsensitiveOption (m_re (FilterLineEdit_filter t opts)) = caseInsensitive opts"
  by (simp add: FilterLineEdit_filter_def Let_def)














section \<open>The matcher finds a match exactly when there is one\<close>

lemma match_here_sound:
  "match_here ci e is s = Some k \<Longrightarrow>
   k \<le> length s \<and> full_match ci is (take k s) \<and> (e \<longrightarrow> k = length s)"
proof (induction ci e "is" s arbitrary: k rule: match_here.induct)
  case (1 ci to_end s)
  then show ?case by (auto split: if_splits)
next
  case (2 ci to_end a "is")
  then show ?case by simp
next
  case (3 ci to_end a "is" c cs)
  then show ?case by (auto split: if_splits)
next
  case (4 ci to_end a "is")
  then have "k \<le> 0 \<and> full_match ci is (take k []) \<and> (to_end \<longrightarrow> k = 0)" by simp
  then show ?case by simp
next
  case (5 ci to_end a "is" c cs)
  show ?case
  proof (cases "atom_matches ci a c")
    case False
    with 5 have "k \<le> length (c # cs) \<and> full_match ci is (take k (c # cs)) \<and> (to_end \<longrightarrow> k = length (c # cs))"
      by simp
    then have "full_match ci (Star a # is) ([] @ take k (c # cs))"
      unfolding full_match.simps by (intro exI[of _ "[]"] exI[of _ "take k (c # cs)"]) simp
    with \<open>k \<le> length (c # cs) \<and> _\<close> show ?thesis by simp
  next
    case True
    show ?thesis
    proof (cases "match_here ci to_end (Star a # is) cs")
      case None
      with 5 True have "k \<le> length (c # cs) \<and> full_match ci is (take k (c # cs)) \<and> (to_end \<longrightarrow> k = length (c # cs))"
        by simp
      then have "full_match ci (Star a # is) ([] @ take k (c # cs))"
        unfolding full_match.simps by (intro exI[of _ "[]"] exI[of _ "take k (c # cs)"]) simp
      with \<open>k \<le> length (c # cs) \<and> _\<close> show ?thesis by simp
    next
      case (Some j)
      with 5 True have k: "k = Suc j" by simp
      from 5(1)[OF True Some] have j: "j \<le> length cs" "full_match ci (Star a # is) (take j cs)"
        "to_end \<longrightarrow> j = length cs" by auto
      from j(2) obtain u v where uv: "take j cs = u @ v" "\<forall>x \<in> set u. atom_matches ci a x" "full_match ci is v"
        by auto
      have "take k (c # cs) = (c # u) @ v" using k uv by simp
      moreover have "\<forall>x \<in> set (c # u). atom_matches ci a x" using True uv by simp
      ultimately have "full_match ci (Star a # is) (take k (c # cs))"
        using uv(3) unfolding full_match.simps by blast
      then show ?thesis using k j by simp
    qed
  qed
qed

lemma match_here_star_skip:
  "match_here ci e is s \<noteq> None \<Longrightarrow> match_here ci e (Star a # is) s \<noteq> None"
  by (cases s) (auto split: option.splits)

lemma match_here_star_more:
  "atom_matches ci a c \<Longrightarrow> match_here ci e (Star a # is) cs \<noteq> None
   \<Longrightarrow> match_here ci e (Star a # is) (c # cs) \<noteq> None"
  by (auto split: option.splits)

lemma match_here_complete:
  "full_match ci is u \<Longrightarrow> (e \<longrightarrow> v = []) \<Longrightarrow> match_here ci e is (u @ v) \<noteq> None"
proof (induction "is" arbitrary: u)
  case Nil
  then show ?case by simp
next
  case (Cons i "is")
  show ?case
  proof (cases i)
    case (One a)
    with Cons.prems obtain c cs where "u = c # cs" "atom_matches ci a c" "full_match ci is cs"
      by auto
    with Cons.IH[of cs] Cons.prems(2) One show ?thesis by simp
  next
    case (Star a)
    with Cons.prems obtain u1 u2 where u: "u = u1 @ u2" "\<forall>x \<in> set u1. atom_matches ci a x"
      "full_match ci is u2" by auto
    have "match_here ci e (Star a # is) (u1 @ u2 @ v) \<noteq> None"
      using u(2)
    proof (induction u1)
      case Nil
      have "match_here ci e is (u2 @ v) \<noteq> None" using Cons.IH[OF u(3) Cons.prems(2)] .
      then show ?case using match_here_star_skip by simp
    next
      case (Cons x xs)
      then show ?case using match_here_star_more[of ci a x e "is" "xs @ u2 @ v"] by simp
    qed
    then show ?thesis using Star u(1) by simp
  qed
qed


lemma search_from_Some:
  "search_from ci is pos s = Some (a, b) \<Longrightarrow>
   \<exists>i k. i \<le> length s \<and> a = pos + i \<and> b = a + k
     \<and> match_here ci False is (drop i s) = Some k"
proof (induction s arbitrary: pos)
  case Nil
  then show ?case by (auto split: option.splits)
next
  case (Cons c cs)
  show ?case
  proof (cases "match_here ci False is (c # cs)")
    case (Some k)
    with Cons.prems have "a = pos" "b = pos + k" by auto
    with Some show ?thesis by (intro exI[of _ 0] exI[of _ k]) simp
  next
    case None
    with Cons.prems have "search_from ci is (Suc pos) cs = Some (a, b)" by simp
    from Cons.IH[OF this] obtain i k where "i \<le> length cs" "a = Suc pos + i" "b = a + k"
      "match_here ci False is (drop i cs) = Some k" by blast
    then show ?thesis by (intro exI[of _ "Suc i"] exI[of _ k]) simp
  qed
qed




lemma anchored_match:
  "items_matcher ci (True, is) text 0 \<noteq> None \<longleftrightarrow> full_match ci is text"
proof
  assume "items_matcher ci (True, is) text 0 \<noteq> None"
  then obtain k where m: "match_here ci True is text = Some k" by (auto simp: items_matcher_def)
  from match_here_sound[OF m] show "full_match ci is text" by auto
next
  assume "full_match ci is text"
  from match_here_complete[OF this, of True "[]"]
  show "items_matcher ci (True, is) text 0 \<noteq> None" by (auto simp: items_matcher_def)
qed









lemma after_first_sound: "after_first tok s = Some r \<Longrightarrow> \<exists>p. s = p @ tok @ r"
proof (induction s)
  case Nil
  then show ?case by (auto split: if_splits)
next
  case (Cons c cs)
  show ?case
  proof (cases "prefix tok (c # cs)")
    case True
    then obtain z where z: "c # cs = tok @ z" by (auto simp: prefix_def)
    have "r = drop (length tok) (c # cs)" using Cons.prems True by simp
    then have "r = z" unfolding z by simp
    with z have "c # cs = [] @ tok @ r" by simp
    then show ?thesis by blast
  next
    case False
    with Cons.prems have "after_first tok cs = Some r" by simp
    from Cons.IH[OF this] obtain p where "cs = p @ tok @ r" ..
    then have "c # cs = (c # p) @ tok @ r" by simp
    then show ?thesis by blast
  qed
qed

lemma after_first_found: "\<exists>x. after_first tok (pre @ tok @ rest) = Some (x @ rest)"
proof (induction pre)
  case Nil
  show ?case
  proof (cases "tok @ rest")
    case Nil
    then show ?thesis by simp
  next
    case (Cons c cs)
    have "after_first tok (c # cs) = Some (drop (length tok) (c # cs))"
      using Cons by (simp add: prefix_def) (metis Cons)
    then have "after_first tok ([] @ tok @ rest) = Some ([] @ rest)"
      using Cons by (metis append_Nil append_eq_conv_conj)
    then show ?thesis by blast
  qed
next
  case (Cons c pre)
  show ?case
  proof (cases "prefix tok (c # pre @ tok @ rest)")
    case False
    with Cons show ?thesis by simp
  next
    case True
    have "length tok \<le> length ((c # pre) @ tok)" by simp
    then have "drop (length tok) (((c # pre) @ tok) @ rest) = drop (length tok) ((c # pre) @ tok) @ rest"
      by (simp only: drop_append) simp
    then have "after_first tok ((c # pre) @ tok @ rest) = Some (drop (length tok) ((c # pre) @ tok) @ rest)"
      using True by simp
    then show ?thesis by blast
  qed
qed

lemma occur_in_order_mono: "occur_in_order toks r \<Longrightarrow> occur_in_order toks (x @ r)"
proof (induction toks arbitrary: r x)
  case Nil
  show ?case by simp
next
  case (Cons tok toks)
  then obtain r1 where r1: "after_first tok r = Some r1" "occur_in_order toks r1"
    by (auto split: option.splits)
  from after_first_sound[OF r1(1)] obtain p where "r = p @ tok @ r1" ..
  then have "x @ r = (x @ p) @ tok @ r1" by simp
  moreover from after_first_found[of tok "x @ p" r1]
  obtain y where "after_first tok ((x @ p) @ tok @ r1) = Some (y @ r1)" ..
  ultimately have "after_first tok (x @ r) = Some (y @ r1)" by simp
  then show ?case using Cons.IH[OF r1(2), of y] by simp
qed


lemma contains_parsed:
  "parse_pattern (pattern re) = Parsed rx \<Longrightarrow> \<not> too_large pcre (pattern re) (caseInsensitiveOption re) \<Longrightarrow>
   \<not> gives_up pcre (pattern re) (caseInsensitiveOption re) key 0 \<Longrightarrow>
   contains pcre key re \<longleftrightarrow> items_matcher (caseInsensitiveOption re) rx key 0 \<noteq> None"
  by (simp add: contains_def compile_def limited_def)

lemma contains_parsed_match:
  "parse_pattern (pattern re) = Parsed rx \<Longrightarrow> contains pcre key re \<Longrightarrow>
   items_matcher (caseInsensitiveOption re) rx key 0 \<noteq> None"
  by (simp add: contains_def compile_def limited_def split: if_splits)




text \<open>
  Why the text has to be without NUL: \<^verbatim>\<open>escape\<close> writes NUL as backslash and zero, and a
  digit after it is read as part of an octal escape. The filter made from NUL followed by
  the digit one matches the character with code 1, and not its own text.
\<close>

lemma plain_filter_nul_example:
  "matches no_pcre
      (FilterLineEdit_filter [CHR 0x00, CHR ''1''] \<lparr>useRegex = False, caseInsensitive = False\<rparr>)
      [CHR 0x01]
   \<and> \<not> matches no_pcre
      (FilterLineEdit_filter [CHR 0x00, CHR ''1''] \<lparr>useRegex = False, caseInsensitive = False\<rparr>)
      [CHR 0x00, CHR ''1'']"
  by code_simp


section \<open>Matching the format names of an item\<close>

lemma unanchor_anchored: "unanchor (anchoredPattern p) = Some p"
  by (simp add: unanchor_def anchoredPattern_def)

lemma parse_anchored:
  "parse_items p = Parsed is \<Longrightarrow> parse_pattern (pattern (anchored_expression p)) = Parsed (True, is)"
  by (simp add: parse_pattern_def unanchor_anchored anchored_expression_def)

lemma contains_anchored:
  "parse_items p = Parsed is \<Longrightarrow> \<not> too_large pcre (anchoredPattern p) False \<Longrightarrow>
   \<not> gives_up pcre (anchoredPattern p) False key 0 \<Longrightarrow>
   contains pcre key (anchored_expression p) \<longleftrightarrow> full_match False is key"
  using contains_parsed[OF parse_anchored, of p "is" pcre key] anchored_match[of False "is" key]
  by (simp add: anchored_expression_def)

lemma contains_anchored_match:
  "parse_items p = Parsed is \<Longrightarrow> contains pcre key (anchored_expression p) \<Longrightarrow>
   full_match False is key"
  using contains_parsed_match[OF parse_anchored, of p "is" pcre key] anchored_match[of False "is" key]
  by (simp add: anchored_expression_def)

lemma matches_index_keys:
  "matches_index pcre h f data \<longleftrightarrow>
     count_list (pattern (m_re f)) (CHR ''/'') = 1
     \<and> (\<exists>key \<in> fst ` set data. contains pcre key (h (pattern (m_re f))))"
  by (simp add: matches_index_def list_ex_iff)

lemma pattern_a_slash_b:
  "pattern (m_re (FilterLineEdit_filter ''a/b'' \<lparr>useRegex = False, caseInsensitive = ci\<rparr>))
     = [CHR ''a'', CHR 0x5C, CHR ''/'', CHR ''b'']"
  by (cases ci) (simp; code_simp)+

lemma parse_a_slash_b:
  "parse_items [CHR ''a'', CHR 0x5C, CHR ''/'', CHR ''b'']
     = Parsed [One (Lit CHR ''a''), One (Lit CHR ''/''), One (Lit CHR ''b'')]"
  by code_simp

lemma parse_pattern_a_slash_b:
  "parse_pattern [CHR ''a'', CHR 0x5C, CHR ''/'', CHR ''b'']
     = Parsed (False, [One (Lit CHR ''a''), One (Lit CHR ''/''), One (Lit CHR ''b'')])"
  by code_simp

lemma count_a_slash_b_slash_c:
  "count_list (pattern (m_re (FilterLineEdit_filter ''a/b/c'' opts))) (CHR ''/'') = 2"
proof (cases "useRegex opts")
  case True
  then show ?thesis by (simp add: filter_pattern)
next
  case False
  have "count_list (pieces_pattern (split_reWhiteSpace ''a/b/c'')) (CHR ''/'') = 2" by code_simp
  with False show ?thesis by (simp add: filter_pattern)
qed

lemma full_a_slash_b:
  "full_match False [One (Lit CHR ''a''), One (Lit CHR ''/''), One (Lit CHR ''b'')] key \<longleftrightarrow> key = ''a/b''"
  by (auto simp: atom_matches_def)

lemma matches_a_slash_b:
  "matches pcre (FilterLineEdit_filter ''a/b'' \<lparr>useRegex = False, caseInsensitive = ci\<rparr>) key
   \<Longrightarrow> items_matcher ci (False, [One (Lit CHR ''a''), One (Lit CHR ''/''), One (Lit CHR ''b'')]) key 0
         \<noteq> None"
  using contains_parsed_match[of "m_re (FilterLineEdit_filter ''a/b'' \<lparr>useRegex = False, caseInsensitive = ci\<rparr>)"
      "(False, [One (Lit CHR ''a''), One (Lit CHR ''/''), One (Lit CHR ''b'')])" pcre key]
  by (simp add: matches_def pattern_a_slash_b parse_pattern_a_slash_b filter_option)

text \<open>
  With the anchored form of the pattern for \<^verbatim>\<open>anchoredRegExp\<close>, a pattern of the modelled
  syntax that is within the limits of the library matches a format name exactly when it
  matches the name as a whole, with case.
\<close>

lemma matches_index_anchored_form:
  assumes "parse_items (pattern (m_re f)) = Parsed is"
    and "\<not> too_large pcre (anchoredPattern (pattern (m_re f))) False"
    and "\<forall>key \<in> fst ` set data. \<not> gives_up pcre (anchoredPattern (pattern (m_re f))) False key 0"
  shows "matches_index pcre anchored_expression f data \<longleftrightarrow>
         count_list (pattern (m_re f)) (CHR ''/'') = 1
         \<and> (\<exists>key \<in> fst ` set data. full_match False is key)"
proof -
  have "contains pcre key (anchored_expression (pattern (m_re f))) \<longleftrightarrow> full_match False is key"
    if "key \<in> fst ` set data" for key
    using contains_anchored[OF assms(1) assms(2), of key] assms(3) that by blast
  then show ?thesis unfolding matches_index_keys by blast
qed

text \<open>
  Whatever \<^verbatim>\<open>anchoredRegExp\<close> is, matching the format names is not matching by the filter
  itself: the two filters made from \<^verbatim>\<open>a/b\<close> with and without the case-insensitive option
  have the same pattern string and so treat the format name \<^verbatim>\<open>A/B\<close> alike, while only the
  first of them matches the text \<^verbatim>\<open>A/B\<close>.
\<close>

lemma matches_index_not_matches:
  assumes "\<not> too_large pcre [CHR ''a'', CHR 0x5C, CHR ''/'', CHR ''b''] True"
    and "\<not> gives_up pcre [CHR ''a'', CHR 0x5C, CHR ''/'', CHR ''b''] True ''A/B'' 0"
  shows "\<not> ((matches_index pcre h
               (FilterLineEdit_filter ''a/b'' \<lparr>useRegex = False, caseInsensitive = True\<rparr>) [(''A/B'', v)]
             \<longleftrightarrow> matches pcre
               (FilterLineEdit_filter ''a/b'' \<lparr>useRegex = False, caseInsensitive = True\<rparr>) ''A/B'')
           \<and> (matches_index pcre h
               (FilterLineEdit_filter ''a/b'' \<lparr>useRegex = False, caseInsensitive = False\<rparr>) [(''A/B'', v)]
             \<longleftrightarrow> matches pcre
               (FilterLineEdit_filter ''a/b'' \<lparr>useRegex = False, caseInsensitive = False\<rparr>) ''A/B''))"
proof -
  let ?ci = "FilterLineEdit_filter ''a/b'' \<lparr>useRegex = False, caseInsensitive = True\<rparr>"
  let ?cs = "FilterLineEdit_filter ''a/b'' \<lparr>useRegex = False, caseInsensitive = False\<rparr>"
  let ?is = "[One (Lit CHR ''a''), One (Lit CHR ''/''), One (Lit CHR ''b'')]"
  have same: "matches_index pcre h ?ci [(''A/B'', v)] = matches_index pcre h ?cs [(''A/B'', v)]"
    by (simp add: matches_index_def pattern_a_slash_b)
  have "items_matcher True (False, ?is) ''A/B'' 0 \<noteq> None" by code_simp
  then have yes: "matches pcre ?ci ''A/B''"
    using contains_parsed[of "m_re ?ci" "(False, ?is)" pcre "''A/B''"] assms
    by (simp add: matches_def pattern_a_slash_b parse_pattern_a_slash_b filter_option)
  have "items_matcher False (False, ?is) ''A/B'' 0 = None" by code_simp
  then have no: "\<not> matches pcre ?cs ''A/B''"
    using matches_a_slash_b[of pcre False "''A/B''"] by blast
  from same yes no show ?thesis by blast
qed

text \<open>
  Claim C4, as amended. Matching the item's format names gives false whenever the pattern
  string does not hold exactly one slash, whatever the names; with exactly one slash it is
  true exactly when some name is matched by the expression that \<^verbatim>\<open>anchoredRegExp\<close> makes
  from the pattern string. Nothing else of the filter plays a part: two filters with the
  same pattern string match the same items this way. With the anchored form of the pattern
  for \<^verbatim>\<open>anchoredRegExp\<close>, and within the limits of the library, the filter made from
  \<^verbatim>\<open>a/b\<close> without the regular-expression option matches an item with the format name
  \<^verbatim>\<open>a/b\<close>; a filter made from \<^verbatim>\<open>a/b/c\<close> matches no item this way.
\<close>

theorem matches_index_single_slash:
  "(count_list (pattern (m_re f)) (CHR ''/'') \<noteq> 1 \<longrightarrow> \<not> matches_index pcre h f data)
   \<and> (count_list (pattern (m_re f)) (CHR ''/'') = 1 \<longrightarrow>
        (matches_index pcre h f data \<longleftrightarrow>
           (\<exists>key \<in> fst ` set data. contains pcre key (h (pattern (m_re f))))))
   \<and> (pattern (m_re g) = pattern (m_re f) \<longrightarrow>
        matches_index pcre h g data = matches_index pcre h f data)
   \<and> (\<not> too_large pcre (anchoredPattern [CHR ''a'', CHR 0x5C, CHR ''/'', CHR ''b'']) False
        \<and> \<not> gives_up pcre (anchoredPattern [CHR ''a'', CHR 0x5C, CHR ''/'', CHR ''b'']) False ''a/b'' 0
      \<longrightarrow> matches_index pcre anchored_expression
            (FilterLineEdit_filter ''a/b'' \<lparr>useRegex = False, caseInsensitive = ci\<rparr>)
            [(''a/b'', v), (''x'', w)])
   \<and> \<not> matches_index pcre h (FilterLineEdit_filter ''a/b/c'' opts) data"
proof -
  let ?p = "[CHR ''a'', CHR 0x5C, CHR ''/'', CHR ''b'']"
  have "matches_index pcre anchored_expression
        (FilterLineEdit_filter ''a/b'' \<lparr>useRegex = False, caseInsensitive = ci\<rparr>)
        [(''a/b'', v), (''x'', w)]"
    if "\<not> too_large pcre (anchoredPattern ?p) False \<and> \<not> gives_up pcre (anchoredPattern ?p) False ''a/b'' 0"
  proof -
    from that have "contains pcre ''a/b'' (anchored_expression ?p)"
      using contains_anchored[OF parse_a_slash_b, of pcre "''a/b''"] full_a_slash_b[of "''a/b''"]
      by blast
    moreover have "count_list ?p (CHR ''/'') = 1" by simp
    ultimately show ?thesis unfolding matches_index_keys pattern_a_slash_b by simp
  qed
  moreover have "\<not> matches_index pcre h (FilterLineEdit_filter ''a/b/c'' opts) data"
    unfolding matches_index_keys using count_a_slash_b_slash_c[of opts] by simp
  moreover have "matches_index pcre h g data = matches_index pcre h f data"
    if "pattern (m_re g) = pattern (m_re f)"
    using that by (simp add: matches_index_def)
  ultimately show ?thesis
    using matches_index_keys[of pcre h f data] by blast
qed

theorem matches_index_single_slash_witness:
  "matches_index no_pcre anchored_expression
      (FilterLineEdit_filter ''a/b'' \<lparr>useRegex = False, caseInsensitive = False\<rparr>)
      [(''a/b'', ''1''), (''x'', ''2'')]
   \<and> matches_index no_pcre anchored_expression
      (FilterLineEdit_filter ''a/b'' \<lparr>useRegex = True, caseInsensitive = False\<rparr>)
      [(''a/b'', ''1''), (''x'', ''2'')]
   \<and> \<not> matches_index no_pcre anchored_expression
      (FilterLineEdit_filter ''a/b/c'' \<lparr>useRegex = True, caseInsensitive = False\<rparr>)
      [(''a/b'', ''1''), (''x'', ''2'')]
   \<and> \<not> matches_index no_pcre anchored_expression
      (FilterLineEdit_filter ''ab'' \<lparr>useRegex = False, caseInsensitive = False\<rparr>)
      [(''ab'', ''1''), (''x'', ''2'')]"
proof -
  let ?e = "FilterLineEdit_filter ''a/b'' \<lparr>useRegex = False, caseInsensitive = False\<rparr>"
  let ?f = "FilterLineEdit_filter ''a/b'' \<lparr>useRegex = True, caseInsensitive = False\<rparr>"
  let ?g = "FilterLineEdit_filter ''ab'' \<lparr>useRegex = False, caseInsensitive = False\<rparr>"
  let ?c = "FilterLineEdit_filter ''a/b/c'' \<lparr>useRegex = True, caseInsensitive = False\<rparr>"
  let ?d = "[(''a/b'', ''1''), (''x'', ''2'')]"
  let ?p = "[CHR ''a'', CHR 0x5C, CHR ''/'', CHR ''b'']"
  have limits: "\<not> too_large no_pcre (anchoredPattern ?p) False
      \<and> \<not> gives_up no_pcre (anchoredPattern ?p) False ''a/b'' 0" by (simp add: no_pcre_def)
  have one: "count_list (pattern (m_re ?f)) (CHR ''/'') = 1" by code_simp
  have key: "\<exists>key \<in> fst ` set ?d. contains no_pcre key (anchored_expression (pattern (m_re ?f)))"
  proof
    show "contains no_pcre ''a/b'' (anchored_expression (pattern (m_re ?f)))" by code_simp
    show "''a/b'' \<in> fst ` set ?d" by simp
  qed
  have none: "count_list (pattern (m_re ?g)) (CHR ''/'') \<noteq> 1" by code_simp
  have 1: "matches_index no_pcre anchored_expression ?e ?d"
    using matches_index_single_slash[of ?e no_pcre anchored_expression ?d ?e False "''1''" "''2''"
        "\<lparr>useRegex = True, caseInsensitive = False\<rparr>"] limits by blast
  have 2: "matches_index no_pcre anchored_expression ?f ?d"
    using matches_index_single_slash[of ?f no_pcre anchored_expression ?d ?f False "''1''" "''2''"
        "\<lparr>useRegex = True, caseInsensitive = False\<rparr>"] one key by blast
  have 3: "\<not> matches_index no_pcre anchored_expression ?c ?d"
    using matches_index_single_slash[of ?f no_pcre anchored_expression ?d ?f False "''1''" "''2''"
        "\<lparr>useRegex = True, caseInsensitive = False\<rparr>"] by blast
  have 4: "\<not> matches_index no_pcre anchored_expression ?g [(''ab'', ''1''), (''x'', ''2'')]"
    using matches_index_single_slash[of ?g no_pcre anchored_expression "[(''ab'', ''1''), (''x'', ''2'')]"
        ?g False "''1''" "''2''" "\<lparr>useRegex = True, caseInsensitive = False\<rparr>"] none by blast
  from 1 2 3 4 show ?thesis by blast
qed

text \<open>
  Claim C4 as it was stated does not hold when a name that matches the pattern is a name
  that the filter matches: for the filter made from \<^verbatim>\<open>a/b\<close> with the case-insensitive
  option the pattern holds exactly one slash and the filter matches \<^verbatim>\<open>A/B\<close>, and for the
  filter made from \<^verbatim>\<open>a/b\<close> without options it matches \<^verbatim>\<open>xa/by\<close>; with the anchored form
  of the pattern for \<^verbatim>\<open>anchoredRegExp\<close>, an item with that one format name is not matched.
\<close>

theorem matches_index_single_slash_counterexample:
  "count_list
      (pattern (m_re (FilterLineEdit_filter ''a/b'' \<lparr>useRegex = False, caseInsensitive = True\<rparr>)))
      (CHR ''/'') = 1
   \<and> matches no_pcre
        (FilterLineEdit_filter ''a/b'' \<lparr>useRegex = False, caseInsensitive = True\<rparr>) ''A/B''
   \<and> \<not> matches_index no_pcre anchored_expression
        (FilterLineEdit_filter ''a/b'' \<lparr>useRegex = False, caseInsensitive = True\<rparr>)
        [(''A/B'', ''1'')]
   \<and> matches no_pcre
        (FilterLineEdit_filter ''a/b'' \<lparr>useRegex = False, caseInsensitive = False\<rparr>) ''xa/by''
   \<and> \<not> matches_index no_pcre anchored_expression
        (FilterLineEdit_filter ''a/b'' \<lparr>useRegex = False, caseInsensitive = False\<rparr>)
        [(''xa/by'', ''1'')]"
  by code_simp

text \<open>
  Claim C10. The expression that matches the format names is made from the pattern string
  alone, so the case-insensitive option of the filter has no effect on it: the two filters
  made from one text that differ in this option only match the same items by format name,
  whatever \<^verbatim>\<open>anchoredRegExp\<close> makes of the pattern string. With the anchored form of the
  pattern for it, the names are compared with case, while the text of an item is compared
  without: within the limits of the library, the case-insensitive filter made from
  \<^verbatim>\<open>a/b\<close> matches the text \<^verbatim>\<open>A/B\<close> and the format name \<^verbatim>\<open>a/b\<close>, and not the format name
  \<^verbatim>\<open>A/B\<close>.
\<close>

theorem matches_index_ignores_case_option:
  "matches_index pcre h (FilterLineEdit_filter t \<lparr>useRegex = r, caseInsensitive = True\<rparr>) data
     = matches_index pcre h (FilterLineEdit_filter t \<lparr>useRegex = r, caseInsensitive = False\<rparr>) data
   \<and> (\<not> too_large pcre [CHR ''a'', CHR 0x5C, CHR ''/'', CHR ''b''] True
        \<and> \<not> gives_up pcre [CHR ''a'', CHR 0x5C, CHR ''/'', CHR ''b''] True ''A/B'' 0
      \<longrightarrow> matches pcre (FilterLineEdit_filter ''a/b'' \<lparr>useRegex = False, caseInsensitive = True\<rparr>) ''A/B'')
   \<and> \<not> matches_index pcre anchored_expression
        (FilterLineEdit_filter ''a/b'' \<lparr>useRegex = False, caseInsensitive = True\<rparr>) [(''A/B'', v)]
   \<and> (\<not> too_large pcre (anchoredPattern [CHR ''a'', CHR 0x5C, CHR ''/'', CHR ''b'']) False
        \<and> \<not> gives_up pcre (anchoredPattern [CHR ''a'', CHR 0x5C, CHR ''/'', CHR ''b'']) False ''a/b'' 0
      \<longrightarrow> matches_index pcre anchored_expression
            (FilterLineEdit_filter ''a/b'' \<lparr>useRegex = False, caseInsensitive = True\<rparr>) [(''a/b'', v)])"
proof -
  let ?p = "[CHR ''a'', CHR 0x5C, CHR ''/'', CHR ''b'']"
  let ?is = "[One (Lit CHR ''a''), One (Lit CHR ''/''), One (Lit CHR ''b'')]"
  let ?ci = "FilterLineEdit_filter ''a/b'' \<lparr>useRegex = False, caseInsensitive = True\<rparr>"
  have same: "matches_index pcre h (FilterLineEdit_filter t \<lparr>useRegex = r, caseInsensitive = True\<rparr>) data
     = matches_index pcre h (FilterLineEdit_filter t \<lparr>useRegex = r, caseInsensitive = False\<rparr>) data"
    by (simp add: matches_index_def filter_pattern)
  have found: "items_matcher True (False, ?is) ''A/B'' 0 \<noteq> None" by code_simp
  have in_text: "matches pcre ?ci ''A/B''"
    if "\<not> too_large pcre ?p True \<and> \<not> gives_up pcre ?p True ''A/B'' 0"
    using contains_parsed[of "m_re ?ci" "(False, ?is)" pcre "''A/B''"] that found
    by (simp add: matches_def pattern_a_slash_b parse_pattern_a_slash_b filter_option)
  have upper: "\<not> matches_index pcre anchored_expression ?ci [(''A/B'', v)]"
    unfolding matches_index_keys pattern_a_slash_b
    using contains_anchored_match[OF parse_a_slash_b, of pcre "''A/B''"] full_a_slash_b[of "''A/B''"]
    by auto
  have lower: "matches_index pcre anchored_expression ?ci [(''a/b'', v)]"
    if "\<not> too_large pcre (anchoredPattern ?p) False \<and> \<not> gives_up pcre (anchoredPattern ?p) False ''a/b'' 0"
  proof -
    from that have "contains pcre ''a/b'' (anchored_expression ?p)"
      using contains_anchored[OF parse_a_slash_b, of pcre "''a/b''"] full_a_slash_b[of "''a/b''"]
      by blast
    moreover have "count_list ?p (CHR ''/'') = 1" by simp
    ultimately show ?thesis unfolding matches_index_keys pattern_a_slash_b by simp
  qed
  from same in_text upper lower show ?thesis by blast
qed

theorem matches_index_ignores_case_option_witness:
  "matches no_pcre (FilterLineEdit_filter ''a/b'' \<lparr>useRegex = False, caseInsensitive = True\<rparr>) ''A/B''
   \<and> \<not> matches_index no_pcre anchored_expression
        (FilterLineEdit_filter ''a/b'' \<lparr>useRegex = False, caseInsensitive = True\<rparr>) [(''A/B'', ''1'')]
   \<and> matches_index no_pcre anchored_expression
        (FilterLineEdit_filter ''a/b'' \<lparr>useRegex = False, caseInsensitive = True\<rparr>) [(''a/b'', ''1'')]
   \<and> matches_index no_pcre anchored_expression
        (FilterLineEdit_filter ''a/b'' \<lparr>useRegex = False, caseInsensitive = False\<rparr>) [(''a/b'', ''1'')]"
proof -
  let ?p = "[CHR ''a'', CHR 0x5C, CHR ''/'', CHR ''b'']"
  have l1: "\<not> too_large no_pcre ?p True \<and> \<not> gives_up no_pcre ?p True ''A/B'' 0"
    by (simp add: no_pcre_def)
  have l2: "\<not> too_large no_pcre (anchoredPattern ?p) False
      \<and> \<not> gives_up no_pcre (anchoredPattern ?p) False ''a/b'' 0" by (simp add: no_pcre_def)
  show ?thesis
    using matches_index_ignores_case_option[of no_pcre anchored_expression "''a/b''" False
        "[(''a/b'', ''1'')]" "''1''"] l1 l2
    by blast
qed

section \<open>The search timer coalesces the edits\<close>

lemma deliver_rapid_edit:
  "hasFocus w \<Longrightarrow> m_timerSearch w = Some (t0 + interval) \<Longrightarrow> t < t0 + interval \<Longrightarrow>
   deliver t TextChanged w = w\<lparr>m_timerSearch := Some (t + interval)\<rparr>"
  by (simp add: deliver_def advance_to_def onTextChanged_def timer_start_def)

lemma run_rapid_edits:
  "hasFocus w \<Longrightarrow> m_timerSearch w = Some (t0 + interval) \<Longrightarrow> rapid t0 ts \<Longrightarrow>
   run (map (\<lambda>t. (t, TextChanged)) ts) w = w\<lparr>m_timerSearch := Some (last (t0 # ts) + interval)\<rparr>"
proof (induction ts arbitrary: w t0)
  case Nil
  then show ?case by simp
next
  case (Cons t ts)
  then have d: "deliver t TextChanged w = w\<lparr>m_timerSearch := Some (t + interval)\<rparr>"
    using deliver_rapid_edit[of w t0 t] by simp
  have "run (map (\<lambda>t. (t, TextChanged)) ts) (w\<lparr>m_timerSearch := Some (t + interval)\<rparr>)
      = w\<lparr>m_timerSearch := Some (t + interval)\<rparr>\<lparr>m_timerSearch := Some (last (t # ts) + interval)\<rparr>"
    using Cons.prems by (intro Cons.IH) simp_all
  then show ?case using d by simp
qed

lemma run_first_edit:
  "hasFocus w \<Longrightarrow> m_timerSearch w = None \<Longrightarrow>
   deliver t0 TextChanged w = w\<lparr>m_timerSearch := Some (t0 + interval)\<rparr>"
  by (simp add: deliver_def advance_to_def onTextChanged_def timer_start_def)

lemma edits_coalesce:
  assumes "hasFocus w" "m_timerSearch w = None" "rapid t0 ts" "last (t0 # ts) + interval \<le> T"
  shows "advance_to T (run (map (\<lambda>t. (t, TextChanged)) (t0 # ts)) w)
           = w\<lparr>filterChanged := filterChanged w @ [last (t0 # ts) + interval]\<rparr>"
proof -
  let ?w1 = "w\<lparr>m_timerSearch := Some (t0 + interval)\<rparr>"
  have "run (map (\<lambda>t. (t, TextChanged)) (t0 # ts)) w = run (map (\<lambda>t. (t, TextChanged)) ts) ?w1"
    using run_first_edit[OF assms(1,2), of t0] by simp
  also have "\<dots> = ?w1\<lparr>m_timerSearch := Some (last (t0 # ts) + interval)\<rparr>"
    using assms(1,3) by (intro run_rapid_edits) simp_all
  finally show ?thesis
    using assms(2,4) by (simp add: advance_to_def emit_filterChanged_def timer_stop_def)
qed

text \<open>
  Claim C7. With the interval of 200: an edit while the line edit has the focus starts the
  timer anew and emits nothing, so edits that follow one another within less than the
  interval give exactly one \<^verbatim>\<open>filterChanged\<close>, one interval after the last of them (edits
  at 0, 50 and 100 give one signal, at 300); losing the focus while the timer runs stops
  the timer and emits the signal at once (focus lost at 120: one signal at 120, none at
  300); an edit without the focus emits at once.
\<close>

theorem search_timer_debounce:
  "(hasFocus w \<and> m_timerSearch w = None \<and> rapid t0 ts \<and> last (t0 # ts) + interval \<le> T \<longrightarrow>
      advance_to T (run (map (\<lambda>t. (t, TextChanged)) (t0 # ts)) w)
        = w\<lparr>filterChanged := filterChanged w @ [last (t0 # ts) + interval]\<rparr>)
   \<and> (hasFocus w \<longrightarrow> onTextChanged now w = w\<lparr>m_timerSearch := Some (now + 200)\<rparr>)
   \<and> (\<not> hasFocus w \<longrightarrow> onTextChanged now w = w\<lparr>filterChanged := filterChanged w @ [now]\<rparr>)
   \<and> (m_timerSearch w \<noteq> None \<longrightarrow>
        focusOutEvent now w
          = w\<lparr>hasFocus := False, m_timerSearch := None, filterChanged := filterChanged w @ [now]\<rparr>)
   \<and> (m_timerSearch w = None \<longrightarrow> focusOutEvent now w = w\<lparr>hasFocus := False\<rparr>)
   \<and> advance_to 1000
        (run [(0, TextChanged), (50, TextChanged), (100, TextChanged)]
           \<lparr>hasFocus = True, m_timerSearch = None, filterChanged = []\<rparr>)
       = \<lparr>hasFocus = True, m_timerSearch = None, filterChanged = [300]\<rparr>
   \<and> advance_to 1000
        (run [(0, TextChanged), (50, TextChanged), (100, TextChanged), (120, FocusOut)]
           \<lparr>hasFocus = True, m_timerSearch = None, filterChanged = []\<rparr>)
       = \<lparr>hasFocus = False, m_timerSearch = None, filterChanged = [120]\<rparr>"
proof -
  have a: "hasFocus w \<longrightarrow> onTextChanged now w = w\<lparr>m_timerSearch := Some (now + 200)\<rparr>"
    by (simp add: onTextChanged_def timer_start_def interval_def)
  have b: "\<not> hasFocus w \<longrightarrow> onTextChanged now w = w\<lparr>filterChanged := filterChanged w @ [now]\<rparr>"
    by (simp add: onTextChanged_def emit_filterChanged_def)
  have c: "m_timerSearch w \<noteq> None \<longrightarrow>
        focusOutEvent now w
          = w\<lparr>hasFocus := False, m_timerSearch := None, filterChanged := filterChanged w @ [now]\<rparr>"
    by (simp add: focusOutEvent_def isActive_def onTextChanged_def timer_stop_def
        emit_filterChanged_def)
  have d: "m_timerSearch w = None \<longrightarrow> focusOutEvent now w = w\<lparr>hasFocus := False\<rparr>"
    by (simp add: focusOutEvent_def isActive_def)
  have e: "advance_to 1000
        (run [(0, TextChanged), (50, TextChanged), (100, TextChanged)]
           \<lparr>hasFocus = True, m_timerSearch = None, filterChanged = []\<rparr>)
       = \<lparr>hasFocus = True, m_timerSearch = None, filterChanged = [300]\<rparr>"
    by (simp add: deliver_def advance_to_def onTextChanged_def timer_start_def timer_stop_def
        emit_filterChanged_def interval_def)
  have f: "advance_to 1000
        (run [(0, TextChanged), (50, TextChanged), (100, TextChanged), (120, FocusOut)]
           \<lparr>hasFocus = True, m_timerSearch = None, filterChanged = []\<rparr>)
       = \<lparr>hasFocus = False, m_timerSearch = None, filterChanged = [120]\<rparr>"
    by (simp add: deliver_def advance_to_def onTextChanged_def timer_start_def timer_stop_def
        emit_filterChanged_def interval_def focusOutEvent_def isActive_def)
  show ?thesis
    using edits_coalesce[of w t0 ts T] a b c d e f by blast
qed

theorem search_timer_debounce_witness:
  "advance_to 400
      (run (map (\<lambda>t. (t, TextChanged)) [10, 60, 110])
         \<lparr>hasFocus = True, m_timerSearch = None, filterChanged = [5]\<rparr>)
     = \<lparr>hasFocus = True, m_timerSearch = None, filterChanged = [5, 310]\<rparr>
   \<and> onTextChanged 7 \<lparr>hasFocus = False, m_timerSearch = None, filterChanged = [5]\<rparr>
     = \<lparr>hasFocus = False, m_timerSearch = None, filterChanged = [5, 7]\<rparr>
   \<and> focusOutEvent 120 \<lparr>hasFocus = True, m_timerSearch = Some 300, filterChanged = []\<rparr>
     = \<lparr>hasFocus = False, m_timerSearch = None, filterChanged = [120]\<rparr>"
proof -
  have h: "hasFocus \<lparr>hasFocus = True, m_timerSearch = None, filterChanged = [5]\<rparr>
      \<and> m_timerSearch \<lparr>hasFocus = True, m_timerSearch = None, filterChanged = [5]\<rparr> = None
      \<and> rapid 10 [60, 110] \<and> last (10 # [60, 110]) + interval \<le> 400"
    by (simp add: interval_def)
  have 1: "advance_to 400
      (run (map (\<lambda>t. (t, TextChanged)) [10, 60, 110])
         \<lparr>hasFocus = True, m_timerSearch = None, filterChanged = [5]\<rparr>)
     = \<lparr>hasFocus = True, m_timerSearch = None, filterChanged = [5, 310]\<rparr>"
    using search_timer_debounce[of "\<lparr>hasFocus = True, m_timerSearch = None, filterChanged = [5]\<rparr>"
        10 "[60, 110]" 400 0] h
    by (simp add: interval_def)
  have 2: "onTextChanged 7 \<lparr>hasFocus = False, m_timerSearch = None, filterChanged = [5]\<rparr>
     = \<lparr>hasFocus = False, m_timerSearch = None, filterChanged = [5, 7]\<rparr>"
    using search_timer_debounce[of "\<lparr>hasFocus = False, m_timerSearch = None, filterChanged = [5]\<rparr>"
        0 "[]" 0 7]
    by simp
  have 3: "focusOutEvent 120 \<lparr>hasFocus = True, m_timerSearch = Some 300, filterChanged = []\<rparr>
     = \<lparr>hasFocus = False, m_timerSearch = None, filterChanged = [120]\<rparr>"
    using search_timer_debounce[of "\<lparr>hasFocus = True, m_timerSearch = Some 300, filterChanged = []\<rparr>"
        0 "[]" 0 120]
    by simp
  from 1 2 3 show ?thesis by blast
qed

section \<open>The highlighting loop ends\<close>

lemma highlight_loop_null: "highlight_loop find_in doc re None a sels = Some sels"
  by (subst highlight_loop.simps) simp

lemma highlight_loop_step:
  "highlight_loop find_in doc re (Some (s, e)) a sels =
     (let sels1 = (if s \<noteq> e then sels @ [(s, e)] else sels);
          cur1 = (if s \<noteq> e then Some (s, e) else movePosition doc NextCharacter (Some (s, e)));
          cur2 = find_in doc re cur1 False
      in if a = position cur2 then
           (let cur4 = find_in doc re (movePosition doc NextCharacter cur2) False
            in if a = position cur4 then Some sels1
               else highlight_loop find_in doc re cur4 (position cur4) sels1)
         else highlight_loop find_in doc re cur2 (position cur2) sels1)"
  by (subst highlight_loop.simps) (simp add: hasSelection_def Let_def)

lemma highlight_loop_returns:
  assumes sane: "finds_ahead find_in doc re"
  shows "cur = None \<or> (\<exists>s e. cur = Some (s, e) \<and> s \<le> e \<and> e \<le> length doc \<and> a = int e)
    \<Longrightarrow> \<exists>r. highlight_loop find_in doc re cur a sels = Some r"
proof (induction "case cur of None \<Rightarrow> 0 | Some (s, e) \<Rightarrow> Suc (length doc - e)"
    arbitrary: cur a sels rule: less_induct)
  case less
  show ?case
  proof (cases cur)
    case None
    then show ?thesis by (simp add: highlight_loop_null)
  next
    case (Some se)
    with less.prems obtain s e where cur: "cur = Some (s, e)" and se: "s \<le> e" "e \<le> length doc"
      and a: "a = int e" by auto
    have later: "\<exists>r. highlight_loop find_in doc re c (position c) sels' = Some r"
      if "c = None \<or> (\<exists>s' e'. c = Some (s', e') \<and> s' \<le> e' \<and> e' \<le> length doc \<and> e < e')"
      for c sels'
    proof (cases c)
      case None
      then show ?thesis by (simp add: highlight_loop_null)
    next
      case (Some p)
      with that obtain s' e' where c: "c = Some (s', e')" "s' \<le> e'" "e' \<le> length doc" "e < e'"
        by auto
      have "(case c of None \<Rightarrow> 0 | Some (s, e) \<Rightarrow> Suc (length doc - e))
          < (case cur of None \<Rightarrow> 0 | Some (s, e) \<Rightarrow> Suc (length doc - e))"
        using c cur se by simp
      from less.hyps[OF this, of "position c" sels'] c show ?thesis
        by (simp add: position_def)
    qed
    define sels1 where "sels1 = (if s \<noteq> e then sels @ [(s, e)] else sels)"
    define cur1 where "cur1 = (if s \<noteq> e then Some (s, e) else movePosition doc NextCharacter (Some (s, e)))"
    define cur2 where "cur2 = find_in doc re cur1 False"
    define cur4 where "cur4 = find_in doc re (movePosition doc NextCharacter cur2) False"
    have step: "highlight_loop find_in doc re cur a sels =
       (if a = position cur2 then
           (if a = position cur4 then Some sels1
            else highlight_loop find_in doc re cur4 (position cur4) sels1)
        else highlight_loop find_in doc re cur2 (position cur2) sels1)"
      unfolding cur highlight_loop_step[of find_in doc re s e a sels]
      by (simp add: Let_def sels1_def cur1_def cur2_def cur4_def)
    have end1: "e \<le> selectionEnd cur1"
      using se by (auto simp: cur1_def selectionEnd_def movePosition_def)
    have c2: "cur2 = None \<or> (\<exists>s' e'. cur2 = Some (s', e') \<and> s' \<le> e' \<and> e' \<le> length doc \<and> e \<le> e')"
    proof (cases cur2)
      case None
      then show ?thesis by simp
    next
      case (Some p)
      obtain s' e' where p: "p = (s', e')" by (cases p)
      from sane[unfolded finds_ahead_def, rule_format, of cur1 s' e'] Some p
      have "selectionEnd cur1 \<le> s' \<and> s' \<le> e' \<and> e' \<le> length doc" by (simp add: cur2_def)
      with end1 Some p show ?thesis by auto
    qed
    show ?thesis
    proof (cases "a = position cur2")
      case False
      then have "cur2 = None \<or> (\<exists>s' e'. cur2 = Some (s', e') \<and> s' \<le> e' \<and> e' \<le> length doc \<and> e < e')"
        using c2 a by (auto simp: position_def)
      from later[OF this, of sels1] False step show ?thesis by simp
    next
      case True
      then obtain s2 where cur2: "cur2 = Some (s2, e)"
        using a c2 by (auto simp: position_def)
      have end3: "e < length doc \<longrightarrow> e < selectionEnd (movePosition doc NextCharacter cur2)"
        by (simp add: cur2 movePosition_def selectionEnd_def)
      have end3': "e \<le> selectionEnd (movePosition doc NextCharacter cur2)"
        by (simp add: cur2 movePosition_def selectionEnd_def)
      have c4: "cur4 = None \<or> (\<exists>s' e'. cur4 = Some (s', e') \<and> s' \<le> e' \<and> e' \<le> length doc \<and> e \<le> e')"
      proof (cases cur4)
        case None
        then show ?thesis by simp
      next
        case (Some p)
        obtain s' e' where p: "p = (s', e')" by (cases p)
        from sane[unfolded finds_ahead_def, rule_format, of "movePosition doc NextCharacter cur2" s' e']
          Some p
        have "selectionEnd (movePosition doc NextCharacter cur2) \<le> s' \<and> s' \<le> e' \<and> e' \<le> length doc"
          by (simp add: cur4_def)
        with end3' Some p show ?thesis by auto
      qed
      show ?thesis
      proof (cases "a = position cur4")
        case True
        with \<open>a = position cur2\<close> step show ?thesis by simp
      next
        case False
        then have "cur4 = None \<or> (\<exists>s' e'. cur4 = Some (s', e') \<and> s' \<le> e' \<and> e' \<le> length doc \<and> e < e')"
          using c4 a by (auto simp: position_def)
        from later[OF this, of sels1] False \<open>a = position cur2\<close> step show ?thesis by simp
      qed
    qed
  qed
qed


lemma items_matcher_range:
  assumes "items_matcher ci rx doc off = Some (s, e)"
  shows "off \<le> s \<and> s \<le> e \<and> e \<le> length doc"
proof (cases "fst rx")
  case True
  with assms obtain k where "off = 0" "s = 0" "e = k" "match_here ci True (snd rx) doc = Some k"
    by (auto simp: items_matcher_def split: if_splits)
  with match_here_sound[of ci True "snd rx" doc k] show ?thesis by simp
next
  case False
  with assms have off: "off \<le> length doc"
    and sf: "search_from ci (snd rx) off (drop off doc) = Some (s, e)"
    by (auto simp: items_matcher_def split: if_splits)
  from search_from_Some[OF sf] obtain i k where ik: "i \<le> length (drop off doc)" "s = off + i"
    "e = s + k" "match_here ci False (snd rx) (drop i (drop off doc)) = Some k" by blast
  from match_here_sound[OF ik(4)] have "k \<le> length (drop i (drop off doc))" by blast
  with ik off show ?thesis by simp
qed

lemma paragraph_find_ahead:
  assumes "parse_pattern (pattern re) = Parsed rx"
  shows "finds_ahead (paragraph_find pcre) doc re"
  unfolding finds_ahead_def
proof (intro allI impI)
  fix cur a p
  assume "paragraph_find pcre doc re cur False = Some (a, p)"
  then have "items_matcher True rx (block_text doc) (selectionEnd cur) = Some (a, p)"
    using assms
    by (simp add: paragraph_find_def compile_def limited_def split: if_splits option.splits)
  from items_matcher_range[OF this]
  show "selectionEnd cur \<le> a \<and> a \<le> p \<and> p \<le> length doc" by (simp add: block_text_def)
qed

text \<open>
  Claim C5. Highlighting returns for every filter and every text edit, provided a match
  that the document's search gives lies at or after the place the search started from and
  inside the document: every round of the loop that goes on has moved the position
  forward. When the search after a match gives the same position again the cursor is moved
  on by one character and the search is made again, and when the position is still the
  same the loop is left. Only the extra selections of the text edit change, and there are
  none when the expression is not valid or its pattern is empty.
\<close>

theorem highlight_returns:
  "(finds_ahead find_in (document edit) (m_re f) \<longrightarrow>
      (\<exists>selections. highlight pcre find_in f edit = Some (edit\<lparr>extraSelections := selections\<rparr>)))
   \<and> (\<not> isValid pcre (m_re f) \<or> pattern (m_re f) = [] \<longrightarrow>
      highlight pcre find_in f edit = Some (edit\<lparr>extraSelections := []\<rparr>))"
proof -
  have "\<exists>selections. highlight pcre find_in f edit = Some (edit\<lparr>extraSelections := selections\<rparr>)"
    if sane: "finds_ahead find_in (document edit) (m_re f)"
  proof (cases "isValid pcre (m_re f) \<and> pattern (m_re f) \<noteq> []")
    case False
    then have "highlight pcre find_in f edit = Some (edit\<lparr>extraSelections := []\<rparr>)"
      by (auto simp: highlight_def)
    then show ?thesis by blast
  next
    case True
    define cur where "cur = find_in (document edit) (m_re f) None False"
    have "cur = None \<or> (\<exists>s e. cur = Some (s, e) \<and> s \<le> e \<and> e \<le> length (document edit)
        \<and> position cur = int e)"
    proof (cases cur)
      case None
      then show ?thesis by simp
    next
      case (Some p)
      obtain s e where p: "p = (s, e)" by (cases p)
      from sane[unfolded finds_ahead_def, rule_format, of None s e] Some p
      have "s \<le> e \<and> e \<le> length (document edit)" by (simp add: cur_def)
      with Some p show ?thesis by (simp add: position_def)
    qed
    from highlight_loop_returns[OF sane this, of "[]"]
    obtain r where "highlight_loop find_in (document edit) (m_re f) cur (position cur) [] = Some r" ..
    with True have "highlight pcre find_in f edit = Some (edit\<lparr>extraSelections := r\<rparr>)"
      by (simp add: highlight_def cur_def Let_def)
    then show ?thesis by blast
  qed
  moreover have "highlight pcre find_in f edit = Some (edit\<lparr>extraSelections := []\<rparr>)"
    if "\<not> isValid pcre (m_re f) \<or> pattern (m_re f) = []"
    using that by (auto simp: highlight_def)
  ultimately show ?thesis by blast
qed

text \<open>
  Two runs of the loop. The pattern \<^verbatim>\<open>x*\<close> matches the empty string at every place: the
  cursor is moved on character by character, and at the end of the document the loop is
  left. The pattern \<^verbatim>\<open>a\<close> gives one selection for each occurrence.
\<close>

lemma highlight_star_example:
  "highlight no_pcre (paragraph_find no_pcre)
      (FilterLineEdit_filter ''x*'' \<lparr>useRegex = True, caseInsensitive = False\<rparr>)
      \<lparr>document = ''ab'', textCursor = Some (0, 0), extraSelections = [(0, 1)]\<rparr>
    = Some \<lparr>document = ''ab'', textCursor = Some (0, 0), extraSelections = []\<rparr>"
  by code_simp

lemma highlight_word_example:
  "highlight no_pcre (paragraph_find no_pcre)
      (FilterLineEdit_filter ''a'' \<lparr>useRegex = False, caseInsensitive = False\<rparr>)
      \<lparr>document = ''aXaa'', textCursor = Some (0, 0), extraSelections = []\<rparr>
    = Some \<lparr>document = ''aXaa'', textCursor = Some (0, 0), extraSelections = [(0, 1), (2, 3), (3, 4)]\<rparr>"
  by code_simp

theorem highlight_returns_witness:
  "finds_ahead (paragraph_find no_pcre) ''ab'' \<lparr>pattern = ''x*'', caseInsensitiveOption = False\<rparr>
   \<and> highlight no_pcre (paragraph_find no_pcre)
        (FilterLineEdit_filter ''x*'' \<lparr>useRegex = True, caseInsensitive = False\<rparr>)
        \<lparr>document = ''ab'', textCursor = Some (0, 0), extraSelections = [(0, 1)]\<rparr> \<noteq> None
   \<and> highlight no_pcre (paragraph_find no_pcre)
        (FilterLineEdit_filter [CHR 0x5C] \<lparr>useRegex = True, caseInsensitive = False\<rparr>)
        \<lparr>document = ''ab'', textCursor = Some (0, 0), extraSelections = [(0, 1)]\<rparr>
       = Some \<lparr>document = ''ab'', textCursor = Some (0, 0), extraSelections = []\<rparr>"
proof -
  let ?re = "\<lparr>pattern = ''x*'', caseInsensitiveOption = False\<rparr>"
  let ?f = "FilterLineEdit_filter ''x*'' \<lparr>useRegex = True, caseInsensitive = False\<rparr>"
  let ?g = "FilterLineEdit_filter [CHR 0x5C] \<lparr>useRegex = True, caseInsensitive = False\<rparr>"
  let ?edit = "\<lparr>document = ''ab'', textCursor = Some (0, 0), extraSelections = [(0, 1)]\<rparr>"
  have "parse_pattern (pattern ?re) = Parsed (False, [Star (Lit CHR ''x'')])" by code_simp
  then have sane: "finds_ahead (paragraph_find no_pcre) ''ab'' ?re" by (rule paragraph_find_ahead)
  have f: "m_re ?f = ?re" by (simp add: FilterLineEdit_filter_def)
  have bad: "\<not> isValid no_pcre (m_re ?g)" by code_simp
  from highlight_returns[of "paragraph_find no_pcre" ?edit ?f no_pcre] sane f
  have 1: "highlight no_pcre (paragraph_find no_pcre) ?f ?edit \<noteq> None" by auto
  from highlight_returns[of "paragraph_find no_pcre" ?edit ?g no_pcre] bad
  have 2: "highlight no_pcre (paragraph_find no_pcre) ?g ?edit
      = Some \<lparr>document = ''ab'', textCursor = Some (0, 0), extraSelections = []\<rparr>" by simp
  from sane 1 2 show ?thesis by blast
qed


section \<open>Searching moves the cursor to the next match\<close>

subsection \<open>The matcher of the modelled syntax gives the first match\<close>




subsection \<open>Occurrences, the first match and the successive matches\<close>













subsection \<open>Searching\<close>










end
